theory Spec2Isabelle
  imports Main "HOL-Library.AList"
begin

section \<open>Data model of the UserState class\<close>

text \<open>
  The development embeds the class \<open>UserState\<close> of \<open>packages/circuits/src/index.ts\<close>.
  Field elements, epochs, indices and reputation amounts are unbounded integers.  Every
  assertion of the source is a branch returning an error value.
\<close>

datatype error =
    NotSignedUp            \<comment> \<open>\<open>UserState: User has not signed up yet\<close>\<close>
  | AlreadySignedUp        \<comment> \<open>\<open>UserState: User has already signed up\<close>\<close>
  | NonceOutOfRange        \<comment> \<open>\<open>epochKeyNonce must be less than max epoch nonce\<close>\<close>
  | NonceListLength        \<comment> \<open>\<open>Length of nonce list should be maxReputationBudget\<close>\<close>
  | DuplicateNullifier     \<comment> \<open>\<open>cannot submit duplicated nonce to compute reputation nullifiers\<close>\<close>
  | AllNullifiersSpent     \<comment> \<open>\<open>All nullifiers are spent\<close>\<close>
  | NotEnoughReputation    \<comment> \<open>\<open>Not enough reputation to spend\<close>\<close>
  | SameEpochTransition    \<comment> \<open>\<open>Can not transition to same epoch\<close>\<close>
  | MissingTransitionedEpoch
      \<comment> \<open>\<open>UserState: User has signed up but missing latestTransitionedEpoch\<close>\<close>
  | MissingGSTLeafIndex
      \<comment> \<open>\<open>UserState: User has signed up but missing latestGSTLeafIndex\<close>\<close>
  | NumericFault           \<comment> \<open>\<open>NUMERIC_FAULT\<close> (overflow) thrown by \<open>BigNumber.from\<close>\<close>
  | External               \<comment> \<open>a failure raised by a collaborator (ledger, datastore)\<close>

record Reputation =
  posRep :: int
  negRep :: int
  graffiti :: int
  signUpFlag :: bool

record Attestation =
  att_attesterId :: int
  att_posRep :: int
  att_negRep :: int
  att_graffiti :: int
  att_signUp :: bool

record IUserStateLeaf =
  attesterId :: int
  reputation :: Reputation

text \<open>
  The collaborators a \<open>UserState\<close> reaches through its \<open>Synchronizer\<close> base class: the
  deployment settings and the queries against the replicated ledger.  A query that can
  throw returns an option; the methods turn \<open>None\<close> into the error \<open>External\<close>.
\<close>

record MerkleProof =
  siblings :: "int list"
  pathIndices :: "int list"

record IncrementalMerkleTree =
  imt_root :: int
  imt_createProof :: "int \<Rightarrow> MerkleProof option"

record EpochTree =
  et_root :: int
  et_createProof :: "int \<Rightarrow> int list"

record Synchronizer =
  numEpochKeyNoncePerEpoch :: nat
  maxReputationBudget :: nat
  epochTreeDepth :: nat
  loadCurrentEpoch :: "int option"
  getNumGSTLeaves :: "int \<Rightarrow> int option"
  getAttestations :: "int \<Rightarrow> Attestation list option"
  nullifierExist :: "int \<Rightarrow> bool"
  genGSTree :: "int \<Rightarrow> IncrementalMerkleTree option"
  genEpochTree :: "int \<Rightarrow> EpochTree option"

text \<open>
  The pure functions imported from \<open>@unirep/crypto\<close>, \<open>@unirep/contracts\<close> and
  \<open>./utils\<close>, none of which is among the sources; they are parameters of the model.
  \<open>genEpochKey\<close> takes the identity nullifier, the epoch, the nonce and the optional
  tree depth.  A sparse Merkle tree is the function from keys to leaf values it stores
  (\<open>genNewSMT\<close> is the constant function of the default leaf); \<open>smtRoot\<close> and
  \<open>smtCreateProof\<close> are its root and its membership proofs.  \<open>reputationHash\<close> and
  \<open>attestationHash\<close> are the \<open>hash()\<close> methods of \<open>Reputation\<close> and \<open>Attestation\<close>.
  \<open>NUM_ATTESTATIONS_PER_PROOF\<close> is the batch size the circuits are compiled with.
\<close>

record Crypto =
  NUM_ATTESTATIONS_PER_PROOF :: nat
  genEpochKey :: "int \<Rightarrow> int \<Rightarrow> int \<Rightarrow> nat option \<Rightarrow> int"
  genReputationNullifier :: "int \<Rightarrow> int \<Rightarrow> int \<Rightarrow> int \<Rightarrow> int"
  hash5 :: "int list \<Rightarrow> int"
  hashLeftRight :: "int \<Rightarrow> int \<Rightarrow> int"
  defaultUserStateLeaf :: int
  reputationHash :: "Reputation \<Rightarrow> int"
  attestationHash :: "Attestation \<Rightarrow> int"
  smtRoot :: "(int \<Rightarrow> int) \<Rightarrow> int"
  smtCreateProof :: "(int \<Rightarrow> int) \<Rightarrow> int \<Rightarrow> int list"

text \<open>
  The leaves of the user state tree are JavaScript objects, shared between the arrays
  that hold them: \<open>objects\<close> is the store of leaf objects, a leaf array is a list of
  references into it, and \<open>nextRef\<close> is the first unused reference.  The staged
  \<open>newUserState\<close> is the pair \<open>newGSTLeaf\<close>, \<open>newUSTLeaves\<close>.  The dictionary
  \<open>transitionedFromAttestations\<close> is keyed by epoch key.
\<close>

record UserState =
  identityNullifier :: int
  identityTrapdoor :: int
  commitment :: int
  hasSignedUp :: bool
  latestTransitionedEpoch :: int
  latestGSTLeafIndex :: int
  latestUserStateLeaves :: "nat list"
  transitionedFromAttestations :: "int \<rightharpoonup> Attestation list"
  newGSTLeaf :: int
  newUSTLeaves :: "nat list"
  objects :: "nat \<Rightarrow> IUserStateLeaf"
  nextRef :: nat

text \<open>The leaf values an array of references denotes in a state.\<close>

definition leavesOf :: "UserState \<Rightarrow> nat list \<Rightarrow> IUserStateLeaf list" where
  "leavesOf s refs = map (objects s) refs"

section \<open>Committing a staged transition\<close>

text \<open>
  A mutating method returns the error it threw, if any, together with the state it left
  behind.  \<open>transition\<close> is the private method \<open>_transition\<close>.
\<close>

definition transition :: "Synchronizer \<Rightarrow> int \<Rightarrow> UserState \<Rightarrow> error option \<times> UserState" where
  "transition sync newLeaf s =
     (if \<not> hasSignedUp s then (Some NotSignedUp, s)
      else case loadCurrentEpoch sync of
        None \<Rightarrow> (Some External, s)
      | Some transitionToEpoch \<Rightarrow>
          (case getNumGSTLeaves sync transitionToEpoch of
             None \<Rightarrow> (Some External, s)
           | Some n \<Rightarrow>
               if newLeaf \<noteq> newGSTLeaf s then (None, s)
               else if \<not> latestTransitionedEpoch s < transitionToEpoch
                 then (Some SameEpochTransition, s)
               else (None, s\<lparr>latestTransitionedEpoch := transitionToEpoch,
                              latestGSTLeafIndex := n - 1,
                              latestUserStateLeaves := newUSTLeaves s\<rparr>)))"

definition userStateTransition ::
  "Synchronizer \<Rightarrow> int \<Rightarrow> int \<Rightarrow> UserState \<Rightarrow> error option \<times> UserState" where
  "userStateTransition sync fromEpoch GSTLeaf s =
     (if hasSignedUp s \<and> latestTransitionedEpoch s = fromEpoch then
        (case transition sync GSTLeaf s of
           (Some e, s') \<Rightarrow> (Some e, s')
         | (None, s') \<Rightarrow> (None, s'\<lparr>newGSTLeaf := 0, newUSTLeaves := []\<rparr>))
      else (None, s\<lparr>newGSTLeaf := 0, newUSTLeaves := []\<rparr>))"

text \<open>
  The committed state of an identity differs between two states when the epoch, the
  leaf index or the leaves the committed array denotes differ.
\<close>

definition committedDiffers :: "UserState \<Rightarrow> UserState \<Rightarrow> bool" where
  "committedDiffers s s' \<longleftrightarrow>
     latestTransitionedEpoch s' \<noteq> latestTransitionedEpoch s \<or>
     latestGSTLeafIndex s' \<noteq> latestGSTLeafIndex s \<or>
     leavesOf s' (latestUserStateLeaves s') \<noteq> leavesOf s (latestUserStateLeaves s)"

text \<open>Sample collaborators and states used to run the methods.\<close>

definition sampleTree :: IncrementalMerkleTree where
  "sampleTree = \<lparr>imt_root = 99,
                 imt_createProof = (\<lambda>i. Some \<lparr>siblings = [i], pathIndices = [0]\<rparr>)\<rparr>"

definition sampleSync :: "int \<Rightarrow> Synchronizer" where
  "sampleSync cur =
     \<lparr>numEpochKeyNoncePerEpoch = 3, maxReputationBudget = 2, epochTreeDepth = 4,
      loadCurrentEpoch = Some cur, getNumGSTLeaves = (\<lambda>_. Some 4),
      getAttestations = (\<lambda>_. Some []), nullifierExist = (\<lambda>_. False),
      genGSTree = (\<lambda>_. Some sampleTree),
      genEpochTree = (\<lambda>_. Some \<lparr>et_root = 77, et_createProof = (\<lambda>k. [k])\<rparr>)\<rparr>"

definition sampleCrypto :: Crypto where
  "sampleCrypto =
     \<lparr>NUM_ATTESTATIONS_PER_PROOF = 2,
      genEpochKey = (\<lambda>idn epoch nonce depth. idn * 100 + epoch * 10 + nonce),
      genReputationNullifier = (\<lambda>idn epoch n att. n),
      hash5 = (\<lambda>xs. foldr (\<lambda>x acc. x + 2 * acc) xs 0),
      hashLeftRight = (\<lambda>a b. a + 3 * b + 1),
      defaultUserStateLeaf = 0,
      reputationHash = (\<lambda>r. posRep r + 2 * negRep r + 1),
      attestationHash = (\<lambda>a. att_attesterId a + 2 * att_posRep a + 1),
      smtRoot = (\<lambda>t. t 1 + 2 * t 2 + 4 * t 3),
      smtCreateProof = (\<lambda>t k. [t k])\<rparr>"

definition sampleLeaf :: IUserStateLeaf where
  "sampleLeaf = \<lparr>attesterId = 1,
                 reputation = \<lparr>posRep = 5, negRep = 0, graffiti = 0, signUpFlag = True\<rparr>\<rparr>"

definition stagedState :: UserState where
  "stagedState =
     \<lparr>identityNullifier = 11, identityTrapdoor = 12, commitment = 13,
      hasSignedUp = True, latestTransitionedEpoch = 1, latestGSTLeafIndex = 0,
      latestUserStateLeaves = [], transitionedFromAttestations = Map.empty,
      newGSTLeaf = 7, newUSTLeaves = [0],
      objects = (\<lambda>_. sampleLeaf), nextRef = 1\<rparr>"

section \<open>Reputation records\<close>

text \<open>
  Modelled from the spec: the class \<open>Reputation\<close> is not among the sources.  The default
  record is the all-zero record for unseen attesters.
\<close>

definition Reputation_default :: Reputation where
  "Reputation_default = \<lparr>posRep = 0, negRep = 0, graffiti = 0, signUpFlag = False\<rparr>"

text \<open>
  Modelled from the spec: the method \<open>Reputation.update\<close> is not among the sources.
  \<open>posRep\<close> and \<open>negRep\<close> are additive, the graffiti is replaced wholesale only when the
  overwrite flag is set (the flag of an attestation is that its graffiti is not zero, as
  \<open>genUserStateTransitionProofs\<close> computes it), and \<open>signUp\<close> is a monotonic OR.
\<close>

definition Reputation_update :: "Reputation \<Rightarrow> int \<Rightarrow> int \<Rightarrow> int \<Rightarrow> bool \<Rightarrow> Reputation" where
  "Reputation_update r p n g su =
     \<lparr>posRep = posRep r + p, negRep = negRep r + n,
      graffiti = (if g \<noteq> 0 then g else graffiti r),
      signUpFlag = (signUpFlag r \<or> su)\<rparr>"

definition getRepByAttester :: "UserState \<Rightarrow> int \<Rightarrow> Reputation" where
  "getRepByAttester s a =
     (case find (\<lambda>leaf. attesterId leaf = a) (leavesOf s (latestUserStateLeaves s)) of
        Some leaf \<Rightarrow> reputation leaf
      | None \<Rightarrow> Reputation_default)"

section \<open>Sign-up\<close>

text \<open>
  \<open>attesterId\<close> and \<open>airdropAmount\<close> are optional numbers; the guard
  \<open>attesterId && airdropAmount\<close> holds when both are given and neither is zero.

  \<open>BigNumber.from\<close> is the constructor of the ethers library.  Given a number it throws
  \<open>NUMERIC_FAULT\<close> (overflow) unless the number lies strictly between \<open>-(2^53 - 1)\<close> and
  \<open>2^53 - 1\<close> (its constant \<open>MAX_SAFE = 0x1fffffffffffff\<close>).  The airdrop is converted
  while the object of the new leaf is built, before any field is assigned, so the throw
  leaves the state as it was.  The arguments \<open>0\<close> and \<open>signUpInLeaf = 1\<close> of the other three
  conversions are in range.
\<close>

definition safeNumber :: "int \<Rightarrow> bool" where
  "safeNumber d \<longleftrightarrow> - (2 ^ 53 - 1) < d \<and> d < 2 ^ 53 - 1"

text \<open>
  The new leaf is a fresh object.  When \<open>getNumGSTLeaves\<close> throws, the assignments made
  before it stay.
\<close>

definition signUp ::
  "Synchronizer \<Rightarrow> int \<Rightarrow> int \<Rightarrow> int option \<Rightarrow> int option \<Rightarrow> UserState
     \<Rightarrow> error option \<times> UserState" where
  "signUp sync epoch identityCommitment attester airdropAmount s =
     (if identityCommitment = commitment s then
        if hasSignedUp s then (Some AlreadySignedUp, s)
        else
          case (case (attester, airdropAmount) of
                  (Some a, Some d) \<Rightarrow>
                    if a \<noteq> 0 \<and> d \<noteq> 0 then
                      if safeNumber d then
                        Inr (s\<lparr>latestUserStateLeaves := [nextRef s],
                               objects := (objects s)(nextRef s :=
                                 \<lparr>attesterId = a,
                                  reputation =
                                    Reputation_update Reputation_default d 0 0 True\<rparr>),
                               nextRef := Suc (nextRef s)\<rparr>)
                      else Inl NumericFault
                    else Inr s
                | _ \<Rightarrow> Inr s) of
            Inl e \<Rightarrow> (Some e, s)
          | Inr s1 \<Rightarrow>
              let s2 = s1\<lparr>latestTransitionedEpoch := epoch\<rparr>
              in case getNumGSTLeaves sync epoch of
                   None \<Rightarrow> (Some External, s2)
                 | Some n \<Rightarrow> (None, s2\<lparr>latestGSTLeafIndex := n - 1, hasSignedUp := True\<rparr>)
      else (None, s))"

section \<open>Staging an epoch transition\<close>

text \<open>
  \<open>saveAttestations\<close> is \<open>_saveAttestations\<close>; its loop runs over the nonces
  \<open>0, \<dots>, numEpochKeyNoncePerEpoch - 1\<close> and stops at the first query that throws.
\<close>

fun saveAttestations_loop ::
  "Crypto \<Rightarrow> Synchronizer \<Rightarrow> int \<Rightarrow> nat list \<Rightarrow> UserState \<Rightarrow> error option \<times> UserState" where
  "saveAttestations_loop cr sync fromEpoch [] s = (None, s)"
| "saveAttestations_loop cr sync fromEpoch (nonce # rest) s =
     (let epochKey = genEpochKey cr (identityNullifier s) fromEpoch (int nonce)
                       (Some (epochTreeDepth sync))
      in case getAttestations sync epochKey of
           None \<Rightarrow> (Some External, s)
         | Some attestations \<Rightarrow>
             saveAttestations_loop cr sync fromEpoch rest
               (s\<lparr>transitionedFromAttestations :=
                    (transitionedFromAttestations s)(epochKey \<mapsto> attestations)\<rparr>))"

definition saveAttestations ::
  "Crypto \<Rightarrow> Synchronizer \<Rightarrow> UserState \<Rightarrow> error option \<times> UserState" where
  "saveAttestations cr sync s =
     (if \<not> hasSignedUp s then (Some NotSignedUp, s)
      else saveAttestations_loop cr sync (latestTransitionedEpoch s)
             [0..<numEpochKeyNoncePerEpoch sync] s)"

text \<open>
  \<open>updateUserStateLeaf\<close> is \<open>_updateUserStateLeaf\<close>.  The array it receives holds
  references; the first leaf object with the attester's id is updated in the store, where
  every array holding that reference sees it; otherwise a fresh object is appended.
\<close>

fun findLeaf :: "(nat \<Rightarrow> IUserStateLeaf) \<Rightarrow> int \<Rightarrow> nat list \<Rightarrow> nat option" where
  "findLeaf h a [] = None"
| "findLeaf h a (r # rs) = (if attesterId (h r) = a then Some r else findLeaf h a rs)"

definition updateUserStateLeaf ::
  "Attestation \<Rightarrow> nat list \<Rightarrow> UserState \<Rightarrow> nat list \<times> UserState" where
  "updateUserStateLeaf attestation stateLeaves s =
     (case findLeaf (objects s) (att_attesterId attestation) stateLeaves of
        Some r \<Rightarrow>
          (stateLeaves,
           s\<lparr>objects := (objects s)(r := (objects s r)\<lparr>reputation :=
                Reputation_update (reputation (objects s r)) (att_posRep attestation)
                  (att_negRep attestation) (att_graffiti attestation)
                  (att_signUp attestation)\<rparr>)\<rparr>)
      | None \<Rightarrow>
          (stateLeaves @ [nextRef s],
           s\<lparr>objects := (objects s)(nextRef s :=
                \<lparr>attesterId = att_attesterId attestation,
                 reputation = Reputation_update Reputation_default (att_posRep attestation)
                   (att_negRep attestation) (att_graffiti attestation)
                   (att_signUp attestation)\<rparr>),
             nextRef := Suc (nextRef s)\<rparr>))"

fun applyAttestations ::
  "Attestation list \<Rightarrow> nat list \<Rightarrow> UserState \<Rightarrow> nat list \<times> UserState" where
  "applyAttestations [] stateLeaves s = (stateLeaves, s)"
| "applyAttestations (a # as) stateLeaves s =
     (case updateUserStateLeaf a stateLeaves s of
        (stateLeaves', s') \<Rightarrow> applyAttestations as stateLeaves' s')"

text \<open>
  The loop over the nonces of \<open>_genNewUserStateAfterTransition\<close>; a key without a
  snapshot (\<open>attestations?.length\<close> undefined) contributes nothing.
\<close>

fun foldNonces ::
  "Crypto \<Rightarrow> Synchronizer \<Rightarrow> int \<Rightarrow> nat list \<Rightarrow> nat list \<Rightarrow> UserState
     \<Rightarrow> nat list \<times> UserState" where
  "foldNonces cr sync fromEpoch [] stateLeaves s = (stateLeaves, s)"
| "foldNonces cr sync fromEpoch (nonce # rest) stateLeaves s =
     (let epochKey = genEpochKey cr (identityNullifier s) fromEpoch (int nonce)
                       (Some (epochTreeDepth sync))
      in case transitionedFromAttestations s epochKey of
           None \<Rightarrow> foldNonces cr sync fromEpoch rest stateLeaves s
         | Some attestations \<Rightarrow>
             (case applyAttestations attestations stateLeaves s of
                (stateLeaves', s') \<Rightarrow> foldNonces cr sync fromEpoch rest stateLeaves' s'))"

text \<open>\<open>genUserStateTreeFromLeaves\<close> is \<open>_genUserStateTreeFromLeaves\<close>.\<close>

definition genUserStateTreeFromLeaves :: "Crypto \<Rightarrow> IUserStateLeaf list \<Rightarrow> (int \<Rightarrow> int)" where
  "genUserStateTreeFromLeaves cr leaves =
     foldl (\<lambda>t leaf. t(attesterId leaf := reputationHash cr (reputation leaf)))
       (\<lambda>_. defaultUserStateLeaf cr) leaves"

definition genUserStateTree :: "Crypto \<Rightarrow> UserState \<Rightarrow> (int \<Rightarrow> int)" where
  "genUserStateTree cr s =
     genUserStateTreeFromLeaves cr (leavesOf s (latestUserStateLeaves s))"

text \<open>
  \<open>genNewUserStateAfterTransition\<close> is \<open>_genNewUserStateAfterTransition\<close>: it returns the
  staged pair and the state, whose store the folding has written.  \<open>slice()\<close> copies the
  array of references, not the leaf objects.
\<close>

definition genNewUserStateAfterTransition ::
  "Crypto \<Rightarrow> Synchronizer \<Rightarrow> UserState \<Rightarrow> (error + int \<times> nat list) \<times> UserState" where
  "genNewUserStateAfterTransition cr sync s =
     (if \<not> hasSignedUp s then (Inl NotSignedUp, s)
      else case foldNonces cr sync (latestTransitionedEpoch s)
                  [0..<numEpochKeyNoncePerEpoch sync] (latestUserStateLeaves s) s of
        (stateLeaves, s') \<Rightarrow>
          (Inr (hashLeftRight cr (commitment s')
                  (smtRoot cr (genUserStateTreeFromLeaves cr (leavesOf s' stateLeaves))),
                stateLeaves), s'))"

definition epochTransition ::
  "Crypto \<Rightarrow> Synchronizer \<Rightarrow> int \<Rightarrow> UserState \<Rightarrow> error option \<times> UserState" where
  "epochTransition cr sync epoch s =
     (if epoch = latestTransitionedEpoch s then
        case saveAttestations cr sync s of
          (Some e, s1) \<Rightarrow> (Some e, s1)
        | (None, s1) \<Rightarrow>
            (case genNewUserStateAfterTransition cr sync s1 of
               (Inl e, s2) \<Rightarrow> (Some e, s2)
             | (Inr (leaf, leaves), s2) \<Rightarrow>
                 (None, s2\<lparr>newGSTLeaf := leaf, newUSTLeaves := leaves\<rparr>))
      else (None, s))"

text \<open>Sample states: a fresh identity, and a signed-up one holding one leaf.\<close>

definition freshState :: UserState where
  "freshState =
     \<lparr>identityNullifier = 11, identityTrapdoor = 12, commitment = 13,
      hasSignedUp = False, latestTransitionedEpoch = 0, latestGSTLeafIndex = 0,
      latestUserStateLeaves = [], transitionedFromAttestations = Map.empty,
      newGSTLeaf = 0, newUSTLeaves = [],
      objects = (\<lambda>_. sampleLeaf), nextRef = 0\<rparr>"

definition signedUpState :: UserState where
  "signedUpState =
     \<lparr>identityNullifier = 11, identityTrapdoor = 12, commitment = 13,
      hasSignedUp = True, latestTransitionedEpoch = 1, latestGSTLeafIndex = 0,
      latestUserStateLeaves = [0], transitionedFromAttestations = Map.empty,
      newGSTLeaf = 0, newUSTLeaves = [],
      objects = (\<lambda>_. sampleLeaf), nextRef = 1\<rparr>"

definition sampleAttestation :: Attestation where
  "sampleAttestation =
     \<lparr>att_attesterId = 1, att_posRep = 3, att_negRep = 0, att_graffiti = 0,
      att_signUp = False\<rparr>"

text \<open>A ledger holding one attestation to the epoch key of nonce 0 in epoch 1.\<close>

definition attestedSync :: Synchronizer where
  "attestedSync =
     (sampleSync 2)\<lparr>getAttestations :=
        (\<lambda>k. if k = 1110 then Some [sampleAttestation] else Some [])\<rparr>"

section \<open>JavaScript numbers\<close>

text \<open>
  \<open>genProveReputationProof\<close> converts the two \<open>BigNumber\<close> fields of a reputation with
  \<open>Number(\<dots>)\<close> and computes with the results.  A value of type Number that such a
  computation meets is an integer that a double represents, an infinity, or NaN.
\<close>

datatype jsnum = Fin int | PInf | NInf | NaN

text \<open>The number of binary digits of a positive integer.\<close>

function bitLength :: "int \<Rightarrow> nat" where
  "bitLength m = (if m \<le> 0 then 0 else Suc (bitLength (m div 2)))"
  by pat_completeness auto
termination
  by (relation "measure nat") auto

declare bitLength.simps [simp del]

text \<open>
  The double nearest to an integer, ties going to the even significand.  An integer of
  magnitude at most \<open>2^53\<close> is a double.  A larger one keeps its 53 leading bits \<open>q\<close>; the
  \<open>e\<close> bits \<open>r\<close> cut off round it up when they exceed one half of \<open>2^e\<close>, or equal it with
  \<open>q\<close> odd.  A result of magnitude \<open>2^1024\<close> is an infinity.  \<open>Number(x)\<close> of a \<open>BigNumber\<close>
  \<open>x\<close> is the Number its decimal string denotes, which is this double.
\<close>

definition roundDouble :: "int \<Rightarrow> jsnum" where
  "roundDouble x =
     (if \<bar>x\<bar> \<le> 2 ^ 53 then Fin x
      else
        let m = \<bar>x\<bar>;
            e = bitLength m - 53;
            q = m div 2 ^ e;
            r = m mod 2 ^ e;
            q' = (if 2 ^ e < 2 * r \<or> (2 * r = 2 ^ e \<and> odd q) then q + 1 else q)
        in if 2 ^ 1024 \<le> q' * 2 ^ e then (if x < 0 then NInf else PInf)
           else Fin (sgn x * (q' * 2 ^ e)))"

text \<open>
  Subtraction and the comparisons \<open><\<close> and \<open><=\<close> of Numbers.  The difference of two
  doubles is the double nearest to the exact difference; the difference of equal
  infinities is NaN, and every comparison with NaN is false.
\<close>

fun jsSub :: "jsnum \<Rightarrow> jsnum \<Rightarrow> jsnum" where
  "jsSub (Fin a) (Fin b) = roundDouble (a - b)"
| "jsSub (Fin a) PInf = NInf"
| "jsSub (Fin a) NInf = PInf"
| "jsSub PInf (Fin b) = PInf"
| "jsSub PInf NInf = PInf"
| "jsSub NInf (Fin b) = NInf"
| "jsSub NInf PInf = NInf"
| "jsSub PInf PInf = NaN"
| "jsSub NInf NInf = NaN"
| "jsSub NaN y = NaN"
| "jsSub x NaN = NaN"

fun jsLess :: "jsnum \<Rightarrow> jsnum \<Rightarrow> bool" where
  "jsLess (Fin a) (Fin b) = (a < b)"
| "jsLess (Fin a) PInf = True"
| "jsLess NInf (Fin b) = True"
| "jsLess NInf PInf = True"
| "jsLess x y = False"

fun jsLessEq :: "jsnum \<Rightarrow> jsnum \<Rightarrow> bool" where
  "jsLessEq (Fin a) (Fin b) = (a \<le> b)"
| "jsLessEq (Fin a) PInf = True"
| "jsLessEq NInf (Fin b) = True"
| "jsLessEq NInf PInf = True"
| "jsLessEq PInf PInf = True"
| "jsLessEq NInf NInf = True"
| "jsLessEq x y = False"

section \<open>Reputation proofs\<close>

record ReputationCircuitInputs =
  rc_epoch :: int
  rc_epoch_key_nonce :: int
  rc_epoch_key :: int
  rc_identity_nullifier :: int
  rc_identity_trapdoor :: int
  rc_user_tree_root :: int
  rc_GST_path_index :: "int list"
  rc_GST_path_elements :: "int list"
  rc_GST_root :: int
  rc_attester_id :: int
  rc_pos_rep :: int
  rc_neg_rep :: int
  rc_graffiti :: int
  rc_sign_up :: bool
  rc_UST_path_elements :: "int list"
  rc_rep_nullifiers_amount :: nat
  rc_selectors :: "int list"
  rc_rep_nonce :: "int list"
  rc_min_rep :: int
  rc_prove_graffiti :: int
  rc_graffiti_pre_image :: int

text \<open>
  The loop over the nonce list.  It runs over the indices below \<open>maxReputationBudget\<close>,
  which the preceding assertion has made the length of the list, so it is a recursion over
  the list.  \<open>nonceExist\<close> holds the nonces seen so far.
\<close>

fun selectNonces :: "int list \<Rightarrow> int list \<Rightarrow> nat \<Rightarrow> int list \<Rightarrow> error + nat \<times> int list" where
  "selectNonces [] nonceExist repNullifiersAmount selectors =
     Inr (repNullifiersAmount, selectors)"
| "selectNonces (x # xs) nonceExist repNullifiersAmount selectors =
     (if x \<noteq> - 1 then
        if x \<in> set nonceExist then Inl DuplicateNullifier
        else selectNonces xs (x # nonceExist) (Suc repNullifiersAmount) (selectors @ [1])
      else selectNonces xs nonceExist repNullifiersAmount (selectors @ [0]))"

text \<open>
  The search for the nonce starter: the first \<open>n\<close> from the given one, below the bound
  \<open>Number(posRep) - Number(negRep)\<close>, whose reputation nullifier the ledger has not seen;
  \<open>-1\<close> when there is none.  The counter \<open>n\<close> is a Number that starts at 0, and \<open>n++\<close>
  adds 1 in double arithmetic: the sum is exact below \<open>2^53\<close>, and at \<open>2^53\<close> it rounds
  back to \<open>2^53\<close>.  There the counter stays, and when the bound lies above and the ledger
  has seen the nullifier of \<open>2^53\<close> the loop never ends: the result is \<open>None\<close>.
\<close>

function findNonceStarter ::
  "Crypto \<Rightarrow> Synchronizer \<Rightarrow> int \<Rightarrow> int \<Rightarrow> int \<Rightarrow> jsnum \<Rightarrow> int \<Rightarrow> int option" where
  "findNonceStarter cr sync idn epoch attester bound n =
     (if jsLess (Fin n) bound then
        if \<not> nullifierExist sync (genReputationNullifier cr idn epoch n attester) then Some n
        else if 2 ^ 53 \<le> n then None
        else findNonceStarter cr sync idn epoch attester bound (n + 1)
      else Some (- 1))"
  by pat_completeness auto
termination
  by (relation "measure (\<lambda>(cr, sync, idn, epoch, attester, bound, n). nat (2 ^ 53 - n))") auto

declare findNonceStarter.simps [simp del]

text \<open>
  The circuit inputs of a reputation proof, as \<open>genProveReputationProof\<close> assembles them
  from the state, its arguments, the global state tree and its proof, and the outcome of
  the loop over the nonce list.
\<close>

definition reputationCircuitInputs ::
  "Crypto \<Rightarrow> UserState \<Rightarrow> int \<Rightarrow> int \<Rightarrow> int option \<Rightarrow> int option \<Rightarrow> int option
     \<Rightarrow> IncrementalMerkleTree \<Rightarrow> MerkleProof \<Rightarrow> nat \<Rightarrow> int list \<Rightarrow> int list
     \<Rightarrow> ReputationCircuitInputs" where
  "reputationCircuitInputs cr s attester epkNonce minRep proveGraffiti graffitiPreImage
       GSTree GSTreeProof repNullifiersAmount selectors nonceList =
     (let epoch = latestTransitionedEpoch s;
          rep = getRepByAttester s attester;
          userStateTree = genUserStateTree cr s
      in \<lparr>rc_epoch = epoch,
          rc_epoch_key_nonce = epkNonce,
          rc_epoch_key = genEpochKey cr (identityNullifier s) epoch epkNonce None,
          rc_identity_nullifier = identityNullifier s,
          rc_identity_trapdoor = identityTrapdoor s,
          rc_user_tree_root = smtRoot cr userStateTree,
          rc_GST_path_index = pathIndices GSTreeProof,
          rc_GST_path_elements = siblings GSTreeProof,
          rc_GST_root = imt_root GSTree,
          rc_attester_id = attester,
          rc_pos_rep = posRep rep,
          rc_neg_rep = negRep rep,
          rc_graffiti = graffiti rep,
          rc_sign_up = signUpFlag rep,
          rc_UST_path_elements = smtCreateProof cr userStateTree attester,
          rc_rep_nullifiers_amount = repNullifiersAmount,
          rc_selectors = selectors,
          rc_rep_nonce = nonceList,
          rc_min_rep = (case minRep of None \<Rightarrow> 0 | Some m \<Rightarrow> m),
          rc_prove_graffiti = (case proveGraffiti of None \<Rightarrow> 0 | Some g \<Rightarrow> g),
          rc_graffiti_pre_image = (case graffitiPreImage of None \<Rightarrow> 0 | Some g \<Rightarrow> g)\<rparr>)"

text \<open>
  \<open>genProveReputationProof\<close> up to the call of the prover: the result is the circuit
  inputs handed to \<open>genProofAndPublicSignals\<close>, or the error thrown before, or \<open>None\<close>
  when the search for the nonce starter never ends.  The method assigns to no field of the
  state.  The bound of the search and of the last assertion is the Number
  \<open>Number(posRep) - Number(negRep)\<close>; the sum \<open>nonceStarter + repNullifiersAmount\<close> is a sum
  of Numbers, where \<open>repNullifiersAmount\<close> counts entries of an array and is exact.
\<close>

definition genProveReputationProof ::
  "Crypto \<Rightarrow> Synchronizer \<Rightarrow> UserState \<Rightarrow> int \<Rightarrow> int \<Rightarrow> int option \<Rightarrow> int option
     \<Rightarrow> int option \<Rightarrow> int list option \<Rightarrow> (error + ReputationCircuitInputs) option" where
  "genProveReputationProof cr sync s attester epkNonce minRep proveGraffiti
       graffitiPreImage nonceListOpt =
     (if \<not> hasSignedUp s then Some (Inl NotSignedUp)
      else if \<not> epkNonce < int (numEpochKeyNoncePerEpoch sync) then Some (Inl NonceOutOfRange)
      else
        let nonceList = (case nonceListOpt of
                           None \<Rightarrow> replicate (maxReputationBudget sync) (- 1)
                         | Some l \<Rightarrow> l)
        in if length nonceList \<noteq> maxReputationBudget sync then Some (Inl NonceListLength)
        else
          let epoch = latestTransitionedEpoch s;
              rep = getRepByAttester s attester
          in case genGSTree sync epoch of
               None \<Rightarrow> Some (Inl External)
             | Some GSTree \<Rightarrow>
                 (case imt_createProof GSTree (latestGSTLeafIndex s) of
                    None \<Rightarrow> Some (Inl External)
                  | Some GSTreeProof \<Rightarrow>
                      (case selectNonces nonceList [] 0 [] of
                         Inl e \<Rightarrow> Some (Inl e)
                       | Inr (repNullifiersAmount, selectors) \<Rightarrow>
                           let circuitInputs =
                                 reputationCircuitInputs cr s attester epkNonce minRep
                                   proveGraffiti graffitiPreImage GSTree GSTreeProof
                                   repNullifiersAmount selectors nonceList;
                               bound = jsSub (roundDouble (posRep rep))
                                         (roundDouble (negRep rep))
                           in if repNullifiersAmount > 0 then
                                (case findNonceStarter cr sync (identityNullifier s) epoch
                                        attester bound 0 of
                                   None \<Rightarrow> None
                                 | Some nonceStarter \<Rightarrow>
                                     if nonceStarter = - 1 then Some (Inl AllNullifiersSpent)
                                     else if \<not> jsLessEq
                                               (roundDouble
                                                  (nonceStarter + int repNullifiersAmount))
                                               bound
                                     then Some (Inl NotEnoughReputation)
                                     else Some (Inr circuitInputs))
                              else Some (Inr circuitInputs))))"

text \<open>
  The condition of the specification: some starting nonce \<open>n\<close> in \<open>[0, bound)\<close> has the
  nullifiers of \<open>n, \<dots>, n + count - 1\<close> all unspent and \<open>n + count \<le> bound\<close>.
\<close>

definition unspentRangeExists ::
  "Crypto \<Rightarrow> Synchronizer \<Rightarrow> UserState \<Rightarrow> int \<Rightarrow> nat \<Rightarrow> bool" where
  "unspentRangeExists cr sync s attester count =
     (let bound = posRep (getRepByAttester s attester) - negRep (getRepByAttester s attester)
      in list_ex (\<lambda>n. list_all (\<lambda>k. \<not> nullifierExist sync
                         (genReputationNullifier cr (identityNullifier s)
                            (latestTransitionedEpoch s) (int k) attester))
                       [n..<n + count]
                     \<and> int (n + count) \<le> bound)
           [0..<nat bound])"

text \<open>
  Sample identities: one holds \<open>posRep = 2\<close> from attester 1, the other \<open>negRep = 4\<close>.  In
  the sample ledger below, the reputation nullifier of nonce 1 is spent.
\<close>

definition richState :: UserState where
  "richState = signedUpState\<lparr>objects := (\<lambda>_.
     \<lparr>attesterId = 1,
      reputation = \<lparr>posRep = 2, negRep = 0, graffiti = 0, signUpFlag = True\<rparr>\<rparr>)\<rparr>"

definition poorState :: UserState where
  "poorState = signedUpState\<lparr>objects := (\<lambda>_.
     \<lparr>attesterId = 1,
      reputation = \<lparr>posRep = 0, negRep = 4, graffiti = 0, signUpFlag = True\<rparr>\<rparr>)\<rparr>"

definition spentSync :: "int \<Rightarrow> Synchronizer" where
  "spentSync k = (sampleSync 1)\<lparr>nullifierExist := (\<lambda>x. x = k)\<rparr>"

text \<open>
  The quantities the checks of \<open>genProveReputationProof\<close> depend on: the bound
  \<open>Number(posRep) - Number(negRep)\<close> for an attester, whether the reputation nullifier of
  a nonce is spent, the number of requested nonces (the entries that are not \<open>-1\<close>), and
  whether building the global state tree and the proof of the identity's leaf succeeds.
\<close>

definition repBound :: "UserState \<Rightarrow> int \<Rightarrow> jsnum" where
  "repBound s attester =
     jsSub (roundDouble (posRep (getRepByAttester s attester)))
       (roundDouble (negRep (getRepByAttester s attester)))"

text \<open>
  The balance \<open>posRep - negRep\<close> as an integer, and the reputations for which the Numbers
  of the method are exact when \<open>count\<close> nonces are requested: then the bound is the
  balance, and the sum of a nonce below the bound and \<open>count\<close> is at most \<open>2^53\<close>.
\<close>

definition repBalance :: "UserState \<Rightarrow> int \<Rightarrow> int" where
  "repBalance s attester =
     posRep (getRepByAttester s attester) - negRep (getRepByAttester s attester)"

definition exactReputation :: "UserState \<Rightarrow> int \<Rightarrow> nat \<Rightarrow> bool" where
  "exactReputation s attester count \<longleftrightarrow>
     0 \<le> posRep (getRepByAttester s attester) \<and>
     0 \<le> negRep (getRepByAttester s attester) \<and>
     negRep (getRepByAttester s attester) \<le> 2 ^ 53 \<and>
     posRep (getRepByAttester s attester) + int count \<le> 2 ^ 53"

definition repNullifierSpent :: "Crypto \<Rightarrow> Synchronizer \<Rightarrow> UserState \<Rightarrow> int \<Rightarrow> int \<Rightarrow> bool" where
  "repNullifierSpent cr sync s attester n =
     nullifierExist sync
       (genReputationNullifier cr (identityNullifier s) (latestTransitionedEpoch s) n attester)"

definition requested :: "int list \<Rightarrow> int list" where
  "requested nonceList = filter (\<lambda>x. x \<noteq> - 1) nonceList"

definition gstProofOk :: "Synchronizer \<Rightarrow> UserState \<Rightarrow> bool" where
  "gstProofOk sync s =
     (case genGSTree sync (latestTransitionedEpoch s) of
        None \<Rightarrow> False
      | Some GSTree \<Rightarrow>
          (case imt_createProof GSTree (latestGSTLeafIndex s) of
             None \<Rightarrow> False
           | Some p \<Rightarrow> True))"

definition nonceStarterOf ::
  "Crypto \<Rightarrow> Synchronizer \<Rightarrow> UserState \<Rightarrow> int \<Rightarrow> int option" where
  "nonceStarterOf cr sync s attester =
     findNonceStarter cr sync (identityNullifier s) (latestTransitionedEpoch s) attester
       (repBound s attester) 0"

definition allSpentSync :: Synchronizer where
  "allSpentSync = (sampleSync 1)\<lparr>nullifierExist := (\<lambda>_. True)\<rparr>"

text \<open>
  A sample identity whose reputation from attester 1 is \<open>posRep = 2^53 + 3\<close> and
  \<open>negRep = 2^53 + 2\<close>: the balance is 1, and the bound the method computes is 2.
\<close>

definition hugeState :: UserState where
  "hugeState = signedUpState\<lparr>objects := (\<lambda>_.
     \<lparr>attesterId = 1,
      reputation = \<lparr>posRep = 2 ^ 53 + 3, negRep = 2 ^ 53 + 2, graffiti = 0,
                    signUpFlag = True\<rparr>\<rparr>)\<rparr>"

section \<open>Serialization\<close>

text \<open>
  The identity handed to the constructor: its secret pair and the value of
  \<open>genIdentityCommitment()\<close>.
\<close>

record ZkIdentity =
  zk_identityNullifier :: int
  zk_trapdoor :: int
  zk_commitment :: int

text \<open>
  The serializers of the classes \<open>Reputation\<close> and \<open>Attestation\<close>, which are not among the
  sources, are parameters: \<open>repToJSON\<close> is \<open>Reputation.toJSON\<close>, \<open>repParse\<close> is
  \<open>JSON.parse\<close> followed by \<open>new Reputation\<close> on the parsed fields, and likewise
  \<open>JSON.stringify\<close> and \<open>JSON.parse\<close> with \<open>new Attestation\<close>.  The types \<open>'j\<close> and \<open>'k\<close>
  stand for the strings they produce.
\<close>

record ('j, 'k) Codec =
  repToJSON :: "Reputation \<Rightarrow> 'j"
  repParse :: "'j \<Rightarrow> Reputation"
  attToJSON :: "Attestation \<Rightarrow> 'k"
  attParse :: "'k \<Rightarrow> Attestation"

text \<open>
  A JavaScript object whose keys are the decimal strings of integers is the list of its
  properties in insertion order, keyed by the integers.  An assignment \<open>obj[k] = v\<close>
  replaces the value of an existing key where it stands and appends a new key
  (\<open>AList.update\<close>).  A \<open>for \<dots> in\<close> loop visits the array indices, the integers from 0 to
  \<open>2^32 - 2\<close>, in ascending order, and then the other keys in insertion order.
\<close>

definition isArrayIndex :: "int \<Rightarrow> bool" where
  "isArrayIndex k \<longleftrightarrow> 0 \<le> k \<and> k < 2 ^ 32 - 1"

definition js_keys :: "(int \<times> 'v) list \<Rightarrow> int list" where
  "js_keys obj =
     sort (filter isArrayIndex (map fst obj)) @ filter (\<lambda>k. \<not> isArrayIndex k) (map fst obj)"

record ('j, 'k) UserStateJSON =
  j_idNullifier :: int
  j_idCommitment :: int
  j_hasSignedUp :: bool
  j_latestTransitionedEpoch :: int
  j_latestGSTLeafIndex :: int
  j_latestUserStateLeaves :: "(int \<times> 'j) list"
  j_transitionedFromAttestations :: "(int \<times> 'k list) list"

fun leavesToString ::
  "('j, 'k) Codec \<Rightarrow> IUserStateLeaf list \<Rightarrow> (int \<times> 'j) list \<Rightarrow> (int \<times> 'j) list" where
  "leavesToString c [] userStateLeavesMapToString = userStateLeavesMapToString"
| "leavesToString c (l # ls) userStateLeavesMapToString =
     leavesToString c ls
       (AList.update (attesterId l) (repToJSON c (reputation l)) userStateLeavesMapToString)"

fun attestationsToString ::
  "Crypto \<Rightarrow> ('j, 'k) Codec \<Rightarrow> UserState \<Rightarrow> nat list \<Rightarrow> (int \<times> 'k list) list
     \<Rightarrow> (int \<times> 'k list) list" where
  "attestationsToString cr c s [] out = out"
| "attestationsToString cr c s (nonce # rest) out =
     (let epk = genEpochKey cr (identityNullifier s) (latestTransitionedEpoch s) (int nonce) None
      in case transitionedFromAttestations s epk of
           None \<Rightarrow> attestationsToString cr c s rest out
         | Some attestations \<Rightarrow>
             attestationsToString cr c s rest
               (AList.update epk (map (attToJSON c) attestations) out))"

definition toJSON ::
  "Crypto \<Rightarrow> Synchronizer \<Rightarrow> ('j, 'k) Codec \<Rightarrow> UserState \<Rightarrow> ('j, 'k) UserStateJSON" where
  "toJSON cr sync c s =
     \<lparr>j_idNullifier = identityNullifier s,
      j_idCommitment = commitment s,
      j_hasSignedUp = hasSignedUp s,
      j_latestTransitionedEpoch = latestTransitionedEpoch s,
      j_latestGSTLeafIndex = latestGSTLeafIndex s,
      j_latestUserStateLeaves =
        leavesToString c (leavesOf s (latestUserStateLeaves s)) [],
      j_transitionedFromAttestations =
        attestationsToString cr c s [0..<numEpochKeyNoncePerEpoch sync] []\<rparr>"

text \<open>
  The constructor.  Every optional argument may be missing.  The leaves it is given become
  the objects \<open>0, \<dots>, n - 1\<close> of the store of the new state; an unused reference holds
  a default leaf no array refers to.
\<close>

definition storeOf :: "IUserStateLeaf list \<Rightarrow> nat \<Rightarrow> IUserStateLeaf" where
  "storeOf leaves r =
     (if r < length leaves then leaves ! r
      else \<lparr>attesterId = 0, reputation = Reputation_default\<rparr>)"

definition UserState_new ::
  "ZkIdentity \<Rightarrow> bool option \<Rightarrow> int option \<Rightarrow> int option \<Rightarrow> IUserStateLeaf list option
     \<Rightarrow> (int \<rightharpoonup> Attestation list) option \<Rightarrow> error + UserState" where
  "UserState_new ident hasSignedUp' latestTransitionedEpoch' latestGSTLeafIndex'
       latestUserStateLeaves' transitionedFromAttestations' =
     (let s0 = \<lparr>identityNullifier = zk_identityNullifier ident,
                identityTrapdoor = zk_trapdoor ident,
                commitment = zk_commitment ident,
                hasSignedUp = False,
                latestTransitionedEpoch = 0,
                latestGSTLeafIndex = 0,
                latestUserStateLeaves = [],
                transitionedFromAttestations = Map.empty,
                newGSTLeaf = 0,
                newUSTLeaves = [],
                objects = storeOf [],
                nextRef = 0\<rparr>
      in case hasSignedUp' of
           None \<Rightarrow> Inr s0
         | Some su \<Rightarrow>
             (case latestTransitionedEpoch' of
                None \<Rightarrow> Inl MissingTransitionedEpoch
              | Some e \<Rightarrow>
                  (case latestGSTLeafIndex' of
                     None \<Rightarrow> Inl MissingGSTLeafIndex
                   | Some i \<Rightarrow>
                       let s1 = s0\<lparr>latestTransitionedEpoch := e, latestGSTLeafIndex := i\<rparr>;
                           s2 = (case latestUserStateLeaves' of
                                   None \<Rightarrow> s1
                                 | Some leaves \<Rightarrow>
                                     s1\<lparr>latestUserStateLeaves := [0..<length leaves],
                                        objects := storeOf leaves,
                                        nextRef := length leaves\<rparr>);
                           s3 = (case transitionedFromAttestations' of
                                   None \<Rightarrow> s2
                                 | Some m \<Rightarrow> s2\<lparr>transitionedFromAttestations := m\<rparr>)
                       in Inr (s3\<lparr>hasSignedUp := su\<rparr>))))"

text \<open>
  \<open>fromJSON\<close> on the object \<open>toJSON\<close> returns (the branch of a string argument, parsed
  first, is not modelled).  Both loops are \<open>for \<dots> in\<close> loops over the keys of an object.
\<close>

definition parseLeaves :: "('j, 'k) Codec \<Rightarrow> (int \<times> 'j) list \<Rightarrow> IUserStateLeaf list" where
  "parseLeaves c obj =
     map (\<lambda>key. \<lparr>attesterId = key, reputation = repParse c (the (map_of obj key))\<rparr>)
       (js_keys obj)"

definition parseAttestations ::
  "('j, 'k) Codec \<Rightarrow> (int \<times> 'k list) list \<Rightarrow> (int \<rightharpoonup> Attestation list)" where
  "parseAttestations c obj =
     foldl (\<lambda>m key. m(key \<mapsto> map (attParse c) (the (map_of obj key)))) Map.empty
       (js_keys obj)"

definition fromJSON ::
  "('j, 'k) Codec \<Rightarrow> ZkIdentity \<Rightarrow> ('j, 'k) UserStateJSON \<Rightarrow> error + UserState" where
  "fromJSON c ident data =
     UserState_new ident (Some (j_hasSignedUp data)) (Some (j_latestTransitionedEpoch data))
       (Some (j_latestGSTLeafIndex data))
       (Some (parseLeaves c (j_latestUserStateLeaves data)))
       (Some (parseAttestations c (j_transitionedFromAttestations data)))"

text \<open>
  A codec that serializes a record as itself, and a state whose two leaves carry the same
  attester.
\<close>

definition idCodec :: "(Reputation, Attestation) Codec" where
  "idCodec = \<lparr>repToJSON = (\<lambda>r. r), repParse = (\<lambda>r. r),
              attToJSON = (\<lambda>a. a), attParse = (\<lambda>a. a)\<rparr>"

definition sampleIdentity :: ZkIdentity where
  "sampleIdentity = \<lparr>zk_identityNullifier = 11, zk_trapdoor = 12, zk_commitment = 13\<rparr>"

definition twoLeafState :: "int \<Rightarrow> int \<Rightarrow> UserState" where
  "twoLeafState a b = signedUpState\<lparr>latestUserStateLeaves := [0, 1],
     objects := (\<lambda>r. if r = 0
        then \<lparr>attesterId = a,
              reputation = \<lparr>posRep = 5, negRep = 0, graffiti = 0, signUpFlag = True\<rparr>\<rparr>
        else \<lparr>attesterId = b,
              reputation = \<lparr>posRep = 9, negRep = 1, graffiti = 0, signUpFlag = False\<rparr>\<rparr>),
     nextRef := 2\<rparr>"

section \<open>Assembling the inputs of the user state transition proofs\<close>

text \<open>
  \<open>genStartTransitionCircuitInputs\<close> is \<open>_genStartTransitionCircuitInputs\<close>.
\<close>

record StartTransitionInputs =
  st_epoch :: int
  st_nonce :: int
  st_user_tree_root :: int
  st_identity_nullifier :: int
  st_identity_trapdoor :: int
  st_GST_path_elements :: "int list"
  st_GST_path_index :: "int list"
  st_GST_root :: int

record StartTransition =
  circuitInputs :: StartTransitionInputs
  start_blindedUserState :: int
  start_blindedHashChain :: int

definition genStartTransitionCircuitInputs ::
  "Crypto \<Rightarrow> UserState \<Rightarrow> int \<Rightarrow> int \<Rightarrow> MerkleProof \<Rightarrow> int \<Rightarrow> StartTransition" where
  "genStartTransitionCircuitInputs cr s fromNonce userStateTreeRoot GSTreeProof GSTreeRoot =
     \<lparr>circuitInputs =
        \<lparr>st_epoch = latestTransitionedEpoch s,
         st_nonce = fromNonce,
         st_user_tree_root = userStateTreeRoot,
         st_identity_nullifier = identityNullifier s,
         st_identity_trapdoor = identityTrapdoor s,
         st_GST_path_elements = siblings GSTreeProof,
         st_GST_path_index = pathIndices GSTreeProof,
         st_GST_root = GSTreeRoot\<rparr>,
      start_blindedUserState =
        hash5 cr [identityNullifier s, userStateTreeRoot, latestTransitionedEpoch s,
                  fromNonce, 0],
      start_blindedHashChain =
        hash5 cr [identityNullifier s, 0, latestTransitionedEpoch s, fromNonce, 0]\<rparr>"

text \<open>
  The source keeps twelve arrays that receive one element each per attestation and per
  padding (\<open>selectors\<close>, \<open>attesterIds\<close>, \<open>oldPosReps\<close>, \<open>oldNegReps\<close>, \<open>oldGraffities\<close>,
  \<open>oldSignUps\<close>, \<open>userStateLeafPathElements\<close>, \<open>posReps\<close>, \<open>negReps\<close>, \<open>graffities\<close>,
  \<open>overwriteGraffities\<close>, \<open>signUps\<close>); the model keeps them as one list of entries, whose
  fields are the twelve elements pushed together.  Decimal strings are the integers they
  denote, and the string \<open>'0'\<close> pushed for a sign-up or overwrite flag is \<open>False\<close>.
\<close>

record ProcessEntry =
  e_selector :: int
  e_attester_id :: int
  e_old_pos_rep :: int
  e_old_neg_rep :: int
  e_old_graffiti :: int
  e_old_sign_up :: bool
  e_path_elements :: "int list"
  e_pos_rep :: int
  e_neg_rep :: int
  e_graffiti :: int
  e_overwrite_graffiti :: bool
  e_sign_up :: bool

text \<open>The variables the loops of \<open>genUserStateTransitionProofs\<close> write.\<close>

record USTAcc =
  fromEpochUserStateTree :: "int \<Rightarrow> int"
  intermediateUserStateTreeRoots :: "int list"
  entries :: "ProcessEntry list"
  fromNonces :: "int list"
  toNonces :: "int list"
  hashChainStarter :: "int list"
  blindedUserState :: "int list"
  blindedHashChain :: "int list"
  reputationRecords :: "int \<rightharpoonup> Reputation"
  epochKeyPathElements :: "int list list"
  finalHashChain :: "int list"

text \<open>
  The test at the head of the loop over the attestations of a nonce, at index \<open>i\<close>:
  \<open>i && i % NUM_ATTESTATIONS_PER_PROOF == 0 && i != NUM_ATTESTATIONS_PER_PROOF - 1\<close>.
\<close>

definition batchBoundary :: "nat \<Rightarrow> nat \<Rightarrow> bool" where
  "batchBoundary N i \<longleftrightarrow> i \<noteq> 0 \<and> i mod N = 0 \<and> int i \<noteq> int N - 1"

text \<open>
  One attestation: the checkpoint at a batch boundary, the old record of the attester
  (copied from the committed state at its first attestation), the proof of its leaf, the
  update of the record and of the tree, the new root, the entry, and the hash chain.
\<close>

definition processAttestation ::
  "Crypto \<Rightarrow> UserState \<Rightarrow> int \<Rightarrow> nat \<Rightarrow> Attestation \<Rightarrow> int \<Rightarrow> USTAcc \<Rightarrow> int \<times> USTAcc" where
  "processAttestation cr s nonce i attestation currentHashChain acc =
     (let acc1 =
            (if batchBoundary (NUM_ATTESTATIONS_PER_PROOF cr) i then
               acc\<lparr>toNonces := toNonces acc @ [nonce],
                   fromNonces := fromNonces acc @ [nonce],
                   hashChainStarter := hashChainStarter acc @ [currentHashChain],
                   blindedUserState := blindedUserState acc @
                     [hash5 cr [identityNullifier s, smtRoot cr (fromEpochUserStateTree acc),
                                latestTransitionedEpoch s, nonce]]\<rparr>
             else acc);
          attester = att_attesterId attestation;
          old = (case reputationRecords acc1 attester of
                   None \<Rightarrow> getRepByAttester s attester
                 | Some r \<Rightarrow> r);
          USTLeafPathElements = smtCreateProof cr (fromEpochUserStateTree acc1) attester;
          new = Reputation_update old (att_posRep attestation) (att_negRep attestation)
                  (att_graffiti attestation) (att_signUp attestation);
          tree' = (fromEpochUserStateTree acc1)(attester := reputationHash cr new)
      in (hashLeftRight cr (attestationHash cr attestation) currentHashChain,
          acc1\<lparr>reputationRecords := (reputationRecords acc1)(attester \<mapsto> new),
               fromEpochUserStateTree := tree',
               intermediateUserStateTreeRoots :=
                 intermediateUserStateTreeRoots acc1 @ [smtRoot cr tree'],
               entries := entries acc1 @
                 [\<lparr>e_selector = 1,
                   e_attester_id = attester,
                   e_old_pos_rep = posRep old,
                   e_old_neg_rep = negRep old,
                   e_old_graffiti = graffiti old,
                   e_old_sign_up = signUpFlag old,
                   e_path_elements = USTLeafPathElements,
                   e_pos_rep = att_posRep attestation,
                   e_neg_rep = att_negRep attestation,
                   e_graffiti = att_graffiti attestation,
                   e_overwrite_graffiti = (att_graffiti attestation \<noteq> 0),
                   e_sign_up = att_signUp attestation\<rparr>]\<rparr>))"

fun processAttestationsLoop ::
  "Crypto \<Rightarrow> UserState \<Rightarrow> int \<Rightarrow> nat \<Rightarrow> Attestation list \<Rightarrow> int \<Rightarrow> USTAcc \<Rightarrow> int \<times> USTAcc" where
  "processAttestationsLoop cr s nonce i [] currentHashChain acc = (currentHashChain, acc)"
| "processAttestationsLoop cr s nonce i (attestation # rest) currentHashChain acc =
     (case processAttestation cr s nonce i attestation currentHashChain acc of
        (currentHashChain', acc') \<Rightarrow>
          processAttestationsLoop cr s nonce (Suc i) rest currentHashChain' acc')"

text \<open>
  The number of entries a nonce is filled up to: \<open>Math.ceil(length / N) * N\<close>, or \<open>N\<close> when
  there is no attestation.  The padding loop pushes the blank entry and the current root.
\<close>

definition filledAttestationNum :: "nat \<Rightarrow> nat \<Rightarrow> nat" where
  "filledAttestationNum N len = (if len \<noteq> 0 then ((len + N - 1) div N) * N else N)"

definition paddingEntry :: "Crypto \<Rightarrow> (int \<Rightarrow> int) \<Rightarrow> ProcessEntry" where
  "paddingEntry cr t =
     \<lparr>e_selector = 0,
      e_attester_id = 0,
      e_old_pos_rep = 0,
      e_old_neg_rep = 0,
      e_old_graffiti = 0,
      e_old_sign_up = False,
      e_path_elements = smtCreateProof cr t 0,
      e_pos_rep = 0,
      e_neg_rep = 0,
      e_graffiti = 0,
      e_overwrite_graffiti = False,
      e_sign_up = False\<rparr>"

fun padLoop :: "Crypto \<Rightarrow> nat \<Rightarrow> USTAcc \<Rightarrow> USTAcc" where
  "padLoop cr 0 acc = acc"
| "padLoop cr (Suc n) acc =
     padLoop cr n
       (acc\<lparr>entries := entries acc @ [paddingEntry cr (fromEpochUserStateTree acc)],
            intermediateUserStateTreeRoots := intermediateUserStateTreeRoots acc @
              [smtRoot cr (fromEpochUserStateTree acc)]\<rparr>)"

text \<open>
  The body of the loop over the nonces, from the attestations the ledger returned for the
  epoch key of the nonce.
\<close>

definition nonceBody ::
  "Crypto \<Rightarrow> Synchronizer \<Rightarrow> UserState \<Rightarrow> EpochTree \<Rightarrow> nat \<Rightarrow> int \<Rightarrow> Attestation list
     \<Rightarrow> USTAcc \<Rightarrow> USTAcc" where
  "nonceBody cr sync s fromEpochTree nonce epochKey attestations acc =
     (let acc1 = acc\<lparr>toNonces := toNonces acc @ [int nonce],
                     hashChainStarter := hashChainStarter acc @ [0]\<rparr>
      in case processAttestationsLoop cr s (int nonce) 0 attestations 0 acc1 of
        (currentHashChain, acc2) \<Rightarrow>
          let acc3 = padLoop cr
                (filledAttestationNum (NUM_ATTESTATIONS_PER_PROOF cr) (length attestations)
                   - length attestations) acc2
          in acc3\<lparr>epochKeyPathElements :=
                    epochKeyPathElements acc3 @ [et_createProof fromEpochTree epochKey],
                  finalHashChain := finalHashChain acc3 @ [currentHashChain],
                  blindedUserState := blindedUserState acc3 @
                    [hash5 cr [identityNullifier s, smtRoot cr (fromEpochUserStateTree acc3),
                               latestTransitionedEpoch s, int nonce]],
                  blindedHashChain := blindedHashChain acc3 @
                    [hash5 cr [identityNullifier s, currentHashChain,
                               latestTransitionedEpoch s, int nonce]],
                  fromNonces :=
                    (if int nonce \<noteq> int (numEpochKeyNoncePerEpoch sync) - 1
                     then fromNonces acc3 @ [int nonce] else fromNonces acc3)\<rparr>)"

fun nonceLoop ::
  "Crypto \<Rightarrow> Synchronizer \<Rightarrow> UserState \<Rightarrow> EpochTree \<Rightarrow> nat list \<Rightarrow> USTAcc \<Rightarrow> error + USTAcc" where
  "nonceLoop cr sync s fromEpochTree [] acc = Inr acc"
| "nonceLoop cr sync s fromEpochTree (nonce # rest) acc =
     (let epochKey = genEpochKey cr (identityNullifier s) (latestTransitionedEpoch s)
                       (int nonce) (Some (epochTreeDepth sync))
      in case getAttestations sync epochKey of
           None \<Rightarrow> Inl External
         | Some attestations \<Rightarrow>
             nonceLoop cr sync s fromEpochTree rest
               (nonceBody cr sync s fromEpochTree nonce epochKey attestations acc))"

text \<open>
  Array reads and slices: \<open>xs[i]\<close> is undefined beyond the end, and \<open>xs.slice(a, b)\<close> holds
  the elements from index \<open>a\<close> up to, not including, index \<open>b\<close>.
\<close>

definition js_nth :: "'a list \<Rightarrow> nat \<Rightarrow> 'a option" where
  "js_nth xs i = (if i < length xs then Some (xs ! i) else None)"

definition slice :: "'a list \<Rightarrow> nat \<Rightarrow> nat \<Rightarrow> 'a list" where
  "slice xs a b = take (b - a) (drop a xs)"

record ProcessAttestationsInputs =
  pa_epoch :: int
  pa_from_nonce :: "int option"
  pa_to_nonce :: "int option"
  pa_identity_nullifier :: int
  pa_intermediate_user_state_tree_roots :: "int list"
  pa_entries :: "ProcessEntry list"
  pa_hash_chain_starter :: "int option"
  pa_input_blinded_user_state :: "int option"

definition processAttestationCircuitInput ::
  "Crypto \<Rightarrow> UserState \<Rightarrow> USTAcc \<Rightarrow> nat \<Rightarrow> ProcessAttestationsInputs" where
  "processAttestationCircuitInput cr s acc i =
     (let startIdx = NUM_ATTESTATIONS_PER_PROOF cr * i;
          endIdx = NUM_ATTESTATIONS_PER_PROOF cr * (i + 1)
      in \<lparr>pa_epoch = latestTransitionedEpoch s,
          pa_from_nonce = js_nth (fromNonces acc) i,
          pa_to_nonce = js_nth (toNonces acc) i,
          pa_identity_nullifier = identityNullifier s,
          pa_intermediate_user_state_tree_roots =
            slice (intermediateUserStateTreeRoots acc) startIdx (endIdx + 1),
          pa_entries = slice (entries acc) startIdx endIdx,
          pa_hash_chain_starter = js_nth (hashChainStarter acc) i,
          pa_input_blinded_user_state = js_nth (blindedUserState acc) i\<rparr>)"

record FinalTransitionInputs =
  fi_epoch :: int
  fi_blinded_user_state :: "int list"
  fi_intermediate_user_state_tree_roots :: "int list"
  fi_start_epoch_key_nonce :: int
  fi_end_epoch_key_nonce :: int
  fi_identity_nullifier :: int
  fi_identity_trapdoor :: int
  fi_GST_path_elements :: "int list"
  fi_GST_path_index :: "int list"
  fi_GST_root :: int
  fi_epk_path_elements :: "int list list"
  fi_hash_chain_results :: "int list"
  fi_blinded_hash_chain_results :: "int list"
  fi_epoch_tree_root :: int

record UserStateTransitionInputs =
  startTransitionCircuitInputs :: StartTransition
  processAttestationCircuitInputs :: "ProcessAttestationsInputs list"
  finalTransitionCircuitInputs :: FinalTransitionInputs

text \<open>The variables as they stand before the loop over the nonces.\<close>

definition initialAcc :: "Crypto \<Rightarrow> UserState \<Rightarrow> StartTransition \<Rightarrow> USTAcc" where
  "initialAcc cr s start =
     \<lparr>fromEpochUserStateTree = genUserStateTree cr s,
      intermediateUserStateTreeRoots = [smtRoot cr (genUserStateTree cr s)],
      entries = [],
      fromNonces = [0],
      toNonces = [],
      hashChainStarter = [],
      blindedUserState = [start_blindedUserState start],
      blindedHashChain = [],
      reputationRecords = Map.empty,
      epochKeyPathElements = [],
      finalHashChain = []\<rparr>"

text \<open>
  \<open>genUserStateTransitionProofs\<close> up to the calls of the prover: the result is the inputs
  of the start proof, of the process-attestations proofs and of the final proof.
\<close>

definition genUserStateTransitionProofs ::
  "Crypto \<Rightarrow> Synchronizer \<Rightarrow> UserState \<Rightarrow> error + UserStateTransitionInputs" where
  "genUserStateTransitionProofs cr sync s =
     (if \<not> hasSignedUp s then Inl NotSignedUp
      else
        let fromEpoch = latestTransitionedEpoch s;
            fromNonce = 0;
            root0 = smtRoot cr (genUserStateTree cr s)
        in case genGSTree sync fromEpoch of
             None \<Rightarrow> Inl External
           | Some fromEpochGSTree \<Rightarrow>
               (case imt_createProof fromEpochGSTree (latestGSTLeafIndex s) of
                  None \<Rightarrow> Inl External
                | Some GSTreeProof \<Rightarrow>
                    (case genEpochTree sync fromEpoch of
                       None \<Rightarrow> Inl External
                     | Some fromEpochTree \<Rightarrow>
                         let start = genStartTransitionCircuitInputs cr s fromNonce root0
                                       GSTreeProof (imt_root fromEpochGSTree)
                         in case nonceLoop cr sync s fromEpochTree
                                   [0..<numEpochKeyNoncePerEpoch sync] (initialAcc cr s start) of
                              Inl e \<Rightarrow> Inl e
                            | Inr acc \<Rightarrow>
                                let startEpochKeyNonce = 0;
                                    endEpochKeyNonce = int (numEpochKeyNoncePerEpoch sync) - 1;
                                    finalUserState =
                                      [root0, smtRoot cr (fromEpochUserStateTree acc)]
                                in Inr
                                  \<lparr>startTransitionCircuitInputs = start,
                                   processAttestationCircuitInputs =
                                     map (processAttestationCircuitInput cr s acc)
                                       [0..<length (fromNonces acc)],
                                   finalTransitionCircuitInputs =
                                     \<lparr>fi_epoch = fromEpoch,
                                      fi_blinded_user_state =
                                        [hash5 cr [identityNullifier s, finalUserState ! 0,
                                                   fromEpoch, startEpochKeyNonce],
                                         hash5 cr [identityNullifier s, finalUserState ! 1,
                                                   fromEpoch, endEpochKeyNonce]],
                                      fi_intermediate_user_state_tree_roots = finalUserState,
                                      fi_start_epoch_key_nonce = startEpochKeyNonce,
                                      fi_end_epoch_key_nonce = endEpochKeyNonce,
                                      fi_identity_nullifier = identityNullifier s,
                                      fi_identity_trapdoor = identityTrapdoor s,
                                      fi_GST_path_elements = siblings GSTreeProof,
                                      fi_GST_path_index = pathIndices GSTreeProof,
                                      fi_GST_root = imt_root fromEpochGSTree,
                                      fi_epk_path_elements = epochKeyPathElements acc,
                                      fi_hash_chain_results = finalHashChain acc,
                                      fi_blinded_hash_chain_results = blindedHashChain acc,
                                      fi_epoch_tree_root = et_root fromEpochTree\<rparr>\<rparr>)))"

text \<open>
  Modelled from the spec: the blinded user state a process-attestations proof outputs is
  computed by the circuit, which is not among the sources.  It is the keyed hash of the
  identity secret, a root, the epoch and a nonce, here the last intermediate root and the
  \<open>to_nonce\<close> the batch declares, in the five-element form of the start phase.
\<close>

definition outputBlindedUserState :: "Crypto \<Rightarrow> ProcessAttestationsInputs \<Rightarrow> int option" where
  "outputBlindedUserState cr b =
     (case pa_to_nonce b of
        None \<Rightarrow> None
      | Some to_nonce \<Rightarrow>
          Some (hash5 cr [pa_identity_nullifier b,
                          last (pa_intermediate_user_state_tree_roots b),
                          pa_epoch b, to_nonce, 0]))"

section \<open>Invariants of the loops of genUserStateTransitionProofs\<close>

text \<open>
  While a batch is open and holds \<open>j\<close> entries: the batches before it are closed, and the
  checkpoint pushed when batch \<open>k\<close> was closed is the hash of the root at the end of that
  batch and of the \<open>to_nonce\<close> of that batch.  \<open>b0\<close> is the first checkpoint.
\<close>

definition chainOpen :: "Crypto \<Rightarrow> UserState \<Rightarrow> int \<Rightarrow> nat \<Rightarrow> USTAcc \<Rightarrow> bool" where
  "chainOpen cr s b0 j acc \<longleftrightarrow>
     toNonces acc \<noteq> [] \<and> j \<le> NUM_ATTESTATIONS_PER_PROOF cr \<and>
     length (blindedUserState acc) = length (toNonces acc) \<and>
     blindedUserState acc ! 0 = b0 \<and>
     length (intermediateUserStateTreeRoots acc) =
       NUM_ATTESTATIONS_PER_PROOF cr * (length (toNonces acc) - 1) + 1 + j \<and>
     length (entries acc) = NUM_ATTESTATIONS_PER_PROOF cr * (length (toNonces acc) - 1) + j \<and>
     last (intermediateUserStateTreeRoots acc) = smtRoot cr (fromEpochUserStateTree acc) \<and>
     length (fromNonces acc) \<le> length (toNonces acc) \<and>
     (\<forall>k. k + 1 < length (toNonces acc) \<longrightarrow>
        blindedUserState acc ! (k + 1) =
          hash5 cr [identityNullifier s,
                    intermediateUserStateTreeRoots acc ! (NUM_ATTESTATIONS_PER_PROOF cr * (k + 1)),
                    latestTransitionedEpoch s, toNonces acc ! k])"

text \<open>Between two nonces every batch is closed.\<close>

definition chainClosed :: "Crypto \<Rightarrow> UserState \<Rightarrow> int \<Rightarrow> USTAcc \<Rightarrow> bool" where
  "chainClosed cr s b0 acc \<longleftrightarrow>
     length (blindedUserState acc) = length (toNonces acc) + 1 \<and>
     blindedUserState acc ! 0 = b0 \<and>
     length (intermediateUserStateTreeRoots acc) =
       NUM_ATTESTATIONS_PER_PROOF cr * length (toNonces acc) + 1 \<and>
     length (entries acc) = NUM_ATTESTATIONS_PER_PROOF cr * length (toNonces acc) \<and>
     last (intermediateUserStateTreeRoots acc) = smtRoot cr (fromEpochUserStateTree acc) \<and>
     length (fromNonces acc) \<le> length (toNonces acc) + 1 \<and>
     (\<forall>k. k < length (toNonces acc) \<longrightarrow>
        blindedUserState acc ! (k + 1) =
          hash5 cr [identityNullifier s,
                    intermediateUserStateTreeRoots acc ! (NUM_ATTESTATIONS_PER_PROOF cr * (k + 1)),
                    latestTransitionedEpoch s, toNonces acc ! k])"

text \<open>The number of entries the open batch holds when the attestation of index \<open>i\<close> is met.\<close>

definition openCount :: "nat \<Rightarrow> nat \<Rightarrow> nat" where
  "openCount N i = (if i = 0 then 0 else (i - 1) mod N + 1)"

text \<open>The number of blank entries that follow the attestations of a nonce.\<close>

definition paddingCount :: "nat \<Rightarrow> nat \<Rightarrow> nat" where
  "paddingCount N len = filledAttestationNum N len - len"

text \<open>
  A blank entry: the selector is 0 and every field that carries an attestation or the old
  record of its attester is zero (the path elements are those of leaf 0 of the tree).
\<close>

definition blankEntry :: "ProcessEntry \<Rightarrow> bool" where
  "blankEntry e \<longleftrightarrow>
     e_selector e = 0 \<and> e_attester_id e = 0 \<and>
     e_old_pos_rep e = 0 \<and> e_old_neg_rep e = 0 \<and> e_old_graffiti e = 0 \<and>
     \<not> e_old_sign_up e \<and>
     e_pos_rep e = 0 \<and> e_neg_rep e = 0 \<and> e_graffiti e = 0 \<and>
     \<not> e_overwrite_graffiti e \<and> \<not> e_sign_up e"

text \<open>
  The attestations the ledger returns for the epoch key of a nonce, as the loop over the
  nonces asks for them.
\<close>

definition attestationsOf :: "Crypto \<Rightarrow> Synchronizer \<Rightarrow> UserState \<Rightarrow> nat \<Rightarrow> Attestation list" where
  "attestationsOf cr sync s nonce =
     (case getAttestations sync
             (genEpochKey cr (identityNullifier s) (latestTransitionedEpoch s) (int nonce)
                (Some (epochTreeDepth sync))) of
        None \<Rightarrow> []
      | Some attestations \<Rightarrow> attestations)"

text \<open>
  The selectors of a nonce with \<open>len\<close> attestations: a 1 for each, then the 0s of the
  padding.
\<close>

definition paddedSelectors :: "nat \<Rightarrow> nat \<Rightarrow> int list" where
  "paddedSelectors N len = replicate len 1 @ replicate (paddingCount N len) 0"

text \<open>The hash chain over the attestations of a nonce, from 0.\<close>

definition hashChainOf :: "Crypto \<Rightarrow> Attestation list \<Rightarrow> int" where
  "hashChainOf cr attestations =
     foldl (\<lambda>h a. hashLeftRight cr (attestationHash cr a) h) 0 attestations"

text \<open>
  Every entry recorded so far is an attestation (selector 1) or a blank entry after which
  the recorded root is the root before it; one more root is recorded than entries, and the
  last is the root of the tree.
\<close>

definition padded :: "Crypto \<Rightarrow> USTAcc \<Rightarrow> bool" where
  "padded cr acc \<longleftrightarrow>
     length (intermediateUserStateTreeRoots acc) = length (entries acc) + 1 \<and>
     last (intermediateUserStateTreeRoots acc) = smtRoot cr (fromEpochUserStateTree acc) \<and>
     (\<forall>p. p < length (entries acc) \<longrightarrow>
        e_selector (entries acc ! p) = 1 \<or>
        (blankEntry (entries acc ! p) \<and>
         intermediateUserStateTreeRoots acc ! (p + 1) = intermediateUserStateTreeRoots acc ! p))"

text \<open>
  The part of the state the staging of a transition is meant to leave alone: the identity,
  the sign-up flag, the committed epoch and leaf index, and the committed array of
  references (not the objects it refers to).
\<close>

definition committedFrame :: "UserState \<Rightarrow> UserState \<Rightarrow> bool" where
  "committedFrame s s' \<longleftrightarrow>
     identityNullifier s' = identityNullifier s \<and> identityTrapdoor s' = identityTrapdoor s \<and>
     commitment s' = commitment s \<and> hasSignedUp s' = hasSignedUp s \<and>
     latestTransitionedEpoch s' = latestTransitionedEpoch s \<and>
     latestGSTLeafIndex s' = latestGSTLeafIndex s \<and>
     latestUserStateLeaves s' = latestUserStateLeaves s"

text \<open>
  The invariant of the leaf arrays: the leaves an array refers to carry pairwise distinct
  attester ids, and every reference is in use.  A state is well formed when its committed
  and its staged array satisfy it.  A later state extends an earlier one when the objects
  of the earlier one keep their attester ids.
\<close>

definition distinctLeaves :: "UserState \<Rightarrow> nat list \<Rightarrow> bool" where
  "distinctLeaves s refs \<longleftrightarrow>
     distinct (map attesterId (leavesOf s refs)) \<and> (\<forall>r \<in> set refs. r < nextRef s)"

definition wellFormed :: "UserState \<Rightarrow> bool" where
  "wellFormed s \<longleftrightarrow>
     distinctLeaves s (latestUserStateLeaves s) \<and> distinctLeaves s (newUSTLeaves s)"

definition extends :: "UserState \<Rightarrow> UserState \<Rightarrow> bool" where
  "extends s s' \<longleftrightarrow>
     nextRef s \<le> nextRef s' \<and>
     (\<forall>r. r < nextRef s \<longrightarrow> attesterId (objects s' r) = attesterId (objects s r))"

section \<open>Properties of userStateTransition\<close>

lemma transition_outcomes:
  "transition sync newLeaf s = (r, s') \<Longrightarrow>
     (r \<noteq> None \<and> s' = s \<and>
        \<not> (hasSignedUp s \<and> newLeaf = newGSTLeaf s \<and>
           (\<exists>cur n. loadCurrentEpoch sync = Some cur \<and> getNumGSTLeaves sync cur = Some n \<and>
              latestTransitionedEpoch s < cur))) \<or>
     (r = None \<and> s' = s \<and> newLeaf \<noteq> newGSTLeaf s) \<or>
     (r = None \<and> hasSignedUp s \<and> newLeaf = newGSTLeaf s \<and>
      (\<exists>cur n. loadCurrentEpoch sync = Some cur \<and> getNumGSTLeaves sync cur = Some n \<and>
         latestTransitionedEpoch s < cur \<and>
         s' = s\<lparr>latestTransitionedEpoch := cur, latestGSTLeafIndex := n - 1,
                 latestUserStateLeaves := newUSTLeaves s\<rparr>))"
  by (auto simp: transition_def split: if_splits option.splits)

text \<open>
  C1 (as the code has it).  A call of \<open>userStateTransition\<close> changes the committed state
  exactly when the user has signed up, \<open>latestTransitionedEpoch\<close> equals \<open>fromEpoch\<close>, the
  leaf equals the staged leaf, and the ledger reports a current epoch strictly later than
  \<open>fromEpoch\<close> together with a leaf count; the committed state then becomes that epoch,
  the leaf count minus one and the staged leaves.  Whenever the call returns without
  throwing, the staged state is reset to leaf 0 and no leaves, and the committed state
  has changed exactly when the three conditions on sign-up, epoch and leaf hold; when the
  call throws, the whole state, the staged part included, is as before.
\<close>

theorem userStateTransition_commit:
  assumes "userStateTransition sync fromEpoch GSTLeaf s = (r, s')"
  shows "(committedDiffers s s' \<longleftrightarrow>
            hasSignedUp s \<and> latestTransitionedEpoch s = fromEpoch \<and> GSTLeaf = newGSTLeaf s \<and>
            (\<exists>cur n. loadCurrentEpoch sync = Some cur \<and> getNumGSTLeaves sync cur = Some n \<and>
               fromEpoch < cur))
         \<and> (committedDiffers s s' \<longrightarrow>
              (\<exists>n. getNumGSTLeaves sync (latestTransitionedEpoch s') = Some n \<and>
                 loadCurrentEpoch sync = Some (latestTransitionedEpoch s') \<and>
                 latestGSTLeafIndex s' = n - 1) \<and>
              leavesOf s' (latestUserStateLeaves s') = leavesOf s (newUSTLeaves s))
         \<and> (r = None \<longrightarrow> newGSTLeaf s' = 0 \<and> newUSTLeaves s' = [] \<and>
              (committedDiffers s s' \<longleftrightarrow>
                 hasSignedUp s \<and> latestTransitionedEpoch s = fromEpoch \<and>
                 GSTLeaf = newGSTLeaf s))
         \<and> (r \<noteq> None \<longrightarrow> s' = s)"
proof (cases "hasSignedUp s \<and> latestTransitionedEpoch s = fromEpoch")
  case False
  with assms have "r = None" "s' = s\<lparr>newGSTLeaf := 0, newUSTLeaves := []\<rparr>"
    by (auto simp: userStateTransition_def)
  with False show ?thesis
    by (auto simp: committedDiffers_def leavesOf_def)
next
  case True
  obtain r0 s0 where t: "transition sync GSTLeaf s = (r0, s0)"
    by (cases "transition sync GSTLeaf s") auto
  from assms True t have rs: "r = r0"
    "s' = (if r0 = None then s0\<lparr>newGSTLeaf := 0, newUSTLeaves := []\<rparr> else s0)"
    by (auto simp: userStateTransition_def split: option.splits)
  from transition_outcomes [OF t] consider
    (threw) "r0 \<noteq> None" "s0 = s"
      "\<not> (hasSignedUp s \<and> GSTLeaf = newGSTLeaf s \<and>
           (\<exists>cur n. loadCurrentEpoch sync = Some cur \<and> getNumGSTLeaves sync cur = Some n \<and>
              latestTransitionedEpoch s < cur))"
    | (mismatch) "r0 = None" "s0 = s" "GSTLeaf \<noteq> newGSTLeaf s"
    | (commit) cur n where "r0 = None" "GSTLeaf = newGSTLeaf s"
      "loadCurrentEpoch sync = Some cur" "getNumGSTLeaves sync cur = Some n"
      "latestTransitionedEpoch s < cur"
      "s0 = s\<lparr>latestTransitionedEpoch := cur, latestGSTLeafIndex := n - 1,
               latestUserStateLeaves := newUSTLeaves s\<rparr>"
    by blast
  then show ?thesis
  proof cases
    case threw
    with rs have "s' = s" "r \<noteq> None" by auto
    with threw(3) True show ?thesis
      by (auto simp: committedDiffers_def)
  next
    case mismatch
    with rs have "s' = s\<lparr>newGSTLeaf := 0, newUSTLeaves := []\<rparr>" "r = None" by auto
    with mismatch(3) show ?thesis
      by (auto simp: committedDiffers_def leavesOf_def)
  next
    case commit
    with rs have s': "r = None"
      "s' = s\<lparr>latestTransitionedEpoch := cur, latestGSTLeafIndex := n - 1,
               latestUserStateLeaves := newUSTLeaves s, newGSTLeaf := 0, newUSTLeaves := []\<rparr>"
      by auto
    with commit True show ?thesis
      by (auto simp: committedDiffers_def leavesOf_def)
  qed
qed

theorem userStateTransition_commit_witness:
  "userStateTransition (sampleSync 2) 1 7 stagedState =
     (None, stagedState\<lparr>latestTransitionedEpoch := 2, latestGSTLeafIndex := 3,
                         latestUserStateLeaves := [0], newGSTLeaf := 0, newUSTLeaves := []\<rparr>)
   \<and> committedDiffers stagedState
        (stagedState\<lparr>latestTransitionedEpoch := 2, latestGSTLeafIndex := 3,
                      latestUserStateLeaves := [0], newGSTLeaf := 0, newUSTLeaves := []\<rparr>)
   \<and> hasSignedUp stagedState \<and> latestTransitionedEpoch stagedState = 1
   \<and> newGSTLeaf stagedState = 7
   \<and> loadCurrentEpoch (sampleSync 2) = Some 2 \<and> getNumGSTLeaves (sampleSync 2) 2 = Some 4
   \<and> userStateTransition (sampleSync 1) 1 7 stagedState =
        (Some SameEpochTransition, stagedState)
   \<and> \<not> committedDiffers stagedState stagedState"
proof -
  have run: "userStateTransition (sampleSync 2) 1 7 stagedState =
     (None, stagedState\<lparr>latestTransitionedEpoch := 2, latestGSTLeafIndex := 3,
                         latestUserStateLeaves := [0], newGSTLeaf := 0, newUSTLeaves := []\<rparr>)"
    by (simp add: userStateTransition_def transition_def sampleSync_def stagedState_def)
  have thrown: "userStateTransition (sampleSync 1) 1 7 stagedState =
        (Some SameEpochTransition, stagedState)"
    by (simp add: userStateTransition_def transition_def sampleSync_def stagedState_def)
  from userStateTransition_commit [OF run] userStateTransition_commit [OF thrown] run thrown
  show ?thesis
    by (simp add: sampleSync_def stagedState_def)
qed

text \<open>
  C1 (as stated) fails: a signed-up identity at epoch 1 holding the staged leaf 7 receives
  \<open>userStateTransition(1, 7)\<close> while the ledger is still in epoch 1.  All three stated
  conditions hold, yet the assertion \<open>fromEpoch < transitionToEpoch\<close> throws: nothing is
  committed and the staged state is not cleared.
\<close>

theorem userStateTransition_commit_counterexample:
  "hasSignedUp stagedState \<and> latestTransitionedEpoch stagedState = 1 \<and>
   newGSTLeaf stagedState = 7 \<and>
   fst (userStateTransition (sampleSync 1) 1 7 stagedState) = Some SameEpochTransition \<and>
   \<not> committedDiffers stagedState (snd (userStateTransition (sampleSync 1) 1 7 stagedState)) \<and>
   newGSTLeaf (snd (userStateTransition (sampleSync 1) 1 7 stagedState)) = 7 \<and>
   newUSTLeaves (snd (userStateTransition (sampleSync 1) 1 7 stagedState)) = [0]"
  by (simp add: userStateTransition_def transition_def sampleSync_def stagedState_def
      committedDiffers_def leavesOf_def)

text \<open>
  C3 (as the code has it).  A call of \<open>userStateTransition\<close> whose \<open>fromEpoch\<close> differs from
  \<open>latestTransitionedEpoch\<close> returns without an error; it leaves \<open>hasSignedUp\<close>,
  \<open>latestTransitionedEpoch\<close>, \<open>latestGSTLeafIndex\<close>, \<open>latestUserStateLeaves\<close> and the
  attestation snapshot as they were and resets the staged state to leaf 0 and no leaves.
\<close>

theorem userStateTransition_epoch_mismatch:
  "latestTransitionedEpoch s \<noteq> fromEpoch \<Longrightarrow>
     userStateTransition sync fromEpoch GSTLeaf s =
       (None, s\<lparr>newGSTLeaf := 0, newUSTLeaves := []\<rparr>)"
  by (simp add: userStateTransition_def)

theorem userStateTransition_epoch_mismatch_witness:
  "latestTransitionedEpoch stagedState \<noteq> 5 \<and>
   userStateTransition (sampleSync 2) 5 7 stagedState =
     (None, stagedState\<lparr>newGSTLeaf := 0, newUSTLeaves := []\<rparr>)"
proof -
  have ne: "latestTransitionedEpoch stagedState \<noteq> 5"
    by (simp add: stagedState_def)
  from userStateTransition_epoch_mismatch [OF ne, of "sampleSync 2" 7] ne
  show ?thesis by simp
qed

text \<open>
  C3 (as stated) fails: with \<open>fromEpoch = 5\<close> against \<open>latestTransitionedEpoch = 1\<close> the
  call reports no failure, and the staged leaf 7 is replaced by 0.
\<close>

theorem userStateTransition_epoch_mismatch_counterexample:
  "latestTransitionedEpoch stagedState \<noteq> 5 \<and>
   fst (userStateTransition (sampleSync 2) 5 7 stagedState) = None \<and>
   newGSTLeaf stagedState = 7 \<and>
   newGSTLeaf (snd (userStateTransition (sampleSync 2) 5 7 stagedState)) = 0 \<and>
   newUSTLeaves stagedState = [0] \<and>
   newUSTLeaves (snd (userStateTransition (sampleSync 2) 5 7 stagedState)) = []"
  by (simp add: userStateTransition_def sampleSync_def stagedState_def)

section \<open>Properties of signUp\<close>

text \<open>
  C6 (as the code has it).  \<open>signUp\<close> changes nothing when the commitment is not the
  identity's own; it throws the assertion, changing nothing, when the commitment matches and
  the user has signed up already; and on a first sign-up, when both \<open>attesterId\<close> and
  \<open>airdropAmount\<close> are given and not zero, either the airdrop is a number
  \<open>BigNumber.from\<close> accepts, and the committed leaves become the single leaf of the given
  attester, holding the default reputation updated by the airdrop and the sign-up flag, or
  it is not, and the call throws and changes nothing; in every other case the committed
  leaves stay as they were.
\<close>

theorem signUp_effect:
  "(identityCommitment \<noteq> commitment s \<longrightarrow>
      signUp sync epoch identityCommitment attester airdropAmount s = (None, s))
   \<and> (identityCommitment = commitment s \<and> hasSignedUp s \<longrightarrow>
      signUp sync epoch identityCommitment attester airdropAmount s = (Some AlreadySignedUp, s))
   \<and> (identityCommitment = commitment s \<and> \<not> hasSignedUp s \<longrightarrow>
      (case (attester, airdropAmount) of
         (Some a, Some d) \<Rightarrow>
           if a \<noteq> 0 \<and> d \<noteq> 0 then
             if safeNumber d then
               leavesOf (snd (signUp sync epoch identityCommitment attester airdropAmount s))
                 (latestUserStateLeaves
                   (snd (signUp sync epoch identityCommitment attester airdropAmount s)))
               = [\<lparr>attesterId = a,
                   reputation = Reputation_update Reputation_default d 0 0 True\<rparr>]
             else signUp sync epoch identityCommitment attester airdropAmount s
               = (Some NumericFault, s)
           else
             leavesOf (snd (signUp sync epoch identityCommitment attester airdropAmount s))
               (latestUserStateLeaves
                 (snd (signUp sync epoch identityCommitment attester airdropAmount s)))
             = leavesOf s (latestUserStateLeaves s)
       | _ \<Rightarrow>
           leavesOf (snd (signUp sync epoch identityCommitment attester airdropAmount s))
             (latestUserStateLeaves
               (snd (signUp sync epoch identityCommitment attester airdropAmount s)))
           = leavesOf s (latestUserStateLeaves s)))"
  by (auto simp: signUp_def leavesOf_def Let_def split: option.splits)

theorem signUp_effect_witness:
  "13 \<noteq> commitment (freshState\<lparr>commitment := 14\<rparr>) \<and>
   signUp (sampleSync 1) 1 13 (Some 3) (Some 5) (freshState\<lparr>commitment := 14\<rparr>)
     = (None, freshState\<lparr>commitment := 14\<rparr>) \<and>
   13 = commitment signedUpState \<and> hasSignedUp signedUpState \<and>
   signUp (sampleSync 1) 1 13 (Some 3) (Some 5) signedUpState = (Some AlreadySignedUp, signedUpState) \<and>
   13 = commitment freshState \<and> \<not> hasSignedUp freshState \<and> safeNumber 5 \<and>
   leavesOf (snd (signUp (sampleSync 1) 1 13 (Some 3) (Some 5) freshState))
     (latestUserStateLeaves (snd (signUp (sampleSync 1) 1 13 (Some 3) (Some 5) freshState)))
     = [\<lparr>attesterId = 3,
         reputation = \<lparr>posRep = 5, negRep = 0, graffiti = 0, signUpFlag = True\<rparr>\<rparr>] \<and>
   \<not> safeNumber (2 ^ 53 - 1) \<and>
   signUp (sampleSync 1) 1 13 (Some 3) (Some (2 ^ 53 - 1)) freshState
     = (Some NumericFault, freshState) \<and>
   leavesOf (snd (signUp (sampleSync 1) 1 13 (Some 3) None freshState))
     (latestUserStateLeaves (snd (signUp (sampleSync 1) 1 13 (Some 3) None freshState)))
     = []"
  using signUp_effect [of 13 "freshState\<lparr>commitment := 14\<rparr>" "sampleSync 1" 1 "Some 3" "Some 5"]
    signUp_effect [of 13 signedUpState "sampleSync 1" 1 "Some 3" "Some 5"]
    signUp_effect [of 13 freshState "sampleSync 1" 1 "Some 3" "Some 5"]
    signUp_effect [of 13 freshState "sampleSync 1" 1 "Some 3" "Some (2 ^ 53 - 1)"]
    signUp_effect [of 13 freshState "sampleSync 1" 1 "Some 3" None]
  by (simp add: freshState_def signedUpState_def Reputation_update_def Reputation_default_def
      safeNumber_def leavesOf_def)

text \<open>
  C6 (as stated) fails: a first sign-up that provides the airdrop 5 and no attester, or
  the attester 3 and the airdrop 0, succeeds and seeds no leaf; and a first sign-up that
  provides the attester 3 and the airdrop \<open>2^53 - 1\<close> throws and seeds no leaf.
\<close>

theorem signUp_airdrop_counterexample:
  "13 = commitment freshState \<and> \<not> hasSignedUp freshState \<and>
   fst (signUp (sampleSync 1) 1 13 None (Some 5) freshState) = None \<and>
   hasSignedUp (snd (signUp (sampleSync 1) 1 13 None (Some 5) freshState)) \<and>
   latestUserStateLeaves (snd (signUp (sampleSync 1) 1 13 None (Some 5) freshState)) = [] \<and>
   fst (signUp (sampleSync 1) 1 13 (Some 3) (Some 0) freshState) = None \<and>
   hasSignedUp (snd (signUp (sampleSync 1) 1 13 (Some 3) (Some 0) freshState)) \<and>
   latestUserStateLeaves (snd (signUp (sampleSync 1) 1 13 (Some 3) (Some 0) freshState)) = [] \<and>
   fst (signUp (sampleSync 1) 1 13 (Some 3) (Some (2 ^ 53 - 1)) freshState)
     = Some NumericFault \<and>
   latestUserStateLeaves
     (snd (signUp (sampleSync 1) 1 13 (Some 3) (Some (2 ^ 53 - 1)) freshState)) = []"
  by (simp add: signUp_def freshState_def sampleSync_def safeNumber_def)


section \<open>Properties of epochTransition\<close>

text \<open>
  C7 at the failing input.  The identity signed up in epoch 1 holds one leaf, attester 1
  with \<open>posRep = 5\<close>; the ledger holds one attestation of attester 1 with \<open>posRep = 3\<close> to
  the epoch key of nonce 0.  \<open>epochTransition(1)\<close> returns normally, and the leaf the
  committed array \<open>latestUserStateLeaves\<close> holds now reads \<open>posRep = 8\<close>: the staging has
  written the object it shares with the copied array.
\<close>

theorem epochTransition_aliasing:
  "hasSignedUp signedUpState \<and> latestTransitionedEpoch signedUpState = 1 \<and>
   leavesOf signedUpState (latestUserStateLeaves signedUpState)
     = [\<lparr>attesterId = 1,
         reputation = \<lparr>posRep = 5, negRep = 0, graffiti = 0, signUpFlag = True\<rparr>\<rparr>] \<and>
   fst (epochTransition sampleCrypto attestedSync 1 signedUpState) = None \<and>
   leavesOf (snd (epochTransition sampleCrypto attestedSync 1 signedUpState))
     (latestUserStateLeaves (snd (epochTransition sampleCrypto attestedSync 1 signedUpState)))
     = [\<lparr>attesterId = 1,
         reputation = \<lparr>posRep = 8, negRep = 0, graffiti = 0, signUpFlag = True\<rparr>\<rparr>]"
  by (simp add: epochTransition_def saveAttestations_def genNewUserStateAfterTransition_def
      updateUserStateLeaf_def signedUpState_def attestedSync_def sampleSync_def sampleCrypto_def
      sampleLeaf_def sampleAttestation_def leavesOf_def Reputation_update_def upt_rec
      genUserStateTreeFromLeaves_def)

section \<open>Properties of genProveReputationProof\<close>

lemma selectNonces_error:
  "selectNonces xs seen amt sel = Inl e \<Longrightarrow> e = DuplicateNullifier"
  by (induction xs arbitrary: seen amt sel) (auto split: if_splits)

lemma selectNonces_duplicate:
  "(selectNonces xs seen amt sel = Inl DuplicateNullifier) \<longleftrightarrow>
     (\<not> distinct (requested xs) \<or> (\<exists>x \<in> set (requested xs). x \<in> set seen))"
  by (induction xs arbitrary: seen amt sel) (auto simp: requested_def)

lemma selectNonces_result:
  "selectNonces xs seen amt sel = Inr (amt', sel') \<Longrightarrow>
     amt' = amt + length (requested xs) \<and>
     sel' = sel @ map (\<lambda>x. if x \<noteq> - 1 then 1 else 0) xs"
proof (induction xs arbitrary: seen amt sel)
  case Nil
  then show ?case by (simp add: requested_def)
next
  case (Cons x xs)
  show ?case
  proof (cases "x = - 1")
    case True
    with Cons.prems have "selectNonces xs seen amt (sel @ [0]) = Inr (amt', sel')"
      by simp
    from Cons.IH [OF this] True show ?thesis
      by (simp add: requested_def)
  next
    case False
    with Cons.prems
    have "selectNonces xs (x # seen) (Suc amt) (sel @ [1]) = Inr (amt', sel')"
      by (auto split: if_splits)
    from Cons.IH [OF this] False show ?thesis
      by (simp add: requested_def)
  qed
qed

lemma selectNonces_top:
  "selectNonces xs [] 0 [] =
     (if distinct (requested xs)
      then Inr (length (requested xs), map (\<lambda>x. if x \<noteq> - 1 then 1 else 0) xs)
      else Inl DuplicateNullifier)"
proof (cases "selectNonces xs [] 0 []")
  case (Inl e)
  then have "e = DuplicateNullifier" by (rule selectNonces_error)
  with Inl selectNonces_duplicate [of xs "[]" 0 "[]"] show ?thesis by auto
next
  case (Inr p)
  obtain a b where "p = (a, b)" by (cases p)
  with Inr selectNonces_result [of xs "[]" 0 "[]" a b]
    selectNonces_duplicate [of xs "[]" 0 "[]"] show ?thesis by auto
qed

lemma roundDouble_exact: "\<bar>x\<bar> \<le> 2 ^ 53 \<Longrightarrow> roundDouble x = Fin x"
  by (simp add: roundDouble_def)

lemma roundDouble_increment:
  "0 \<le> n \<Longrightarrow> n < 2 ^ 53 \<Longrightarrow> roundDouble (n + 1) = Fin (n + 1)"
  "roundDouble (2 ^ 53 + 1) = Fin (2 ^ 53)"
  by (simp add: roundDouble_exact, code_simp)

lemma repBound_exact:
  assumes "exactReputation s attester count"
  shows "repBound s attester = Fin (repBalance s attester)"
proof -
  let ?p = "posRep (getRepByAttester s attester)"
  let ?n = "negRep (getRepByAttester s attester)"
  from assms have "0 \<le> ?p" "?p \<le> 2 ^ 53" "0 \<le> ?n" "?n \<le> 2 ^ 53"
    by (simp_all add: exactReputation_def)
  then have "\<bar>?p\<bar> \<le> 2 ^ 53" "\<bar>?n\<bar> \<le> 2 ^ 53" "\<bar>?p - ?n\<bar> \<le> 2 ^ 53"
    by linarith+
  then show ?thesis
    by (simp add: repBound_def repBalance_def roundDouble_exact)
qed

lemma findNonceStarter_unfold:
  "findNonceStarter cr sync (identityNullifier s) (latestTransitionedEpoch s) attester bound n =
     (if jsLess (Fin n) bound then
        if \<not> repNullifierSpent cr sync s attester n then Some n
        else if 2 ^ 53 \<le> n then None
        else findNonceStarter cr sync (identityNullifier s) (latestTransitionedEpoch s)
               attester bound (n + 1)
      else Some (- 1))"
  by (subst findNonceStarter.simps) (simp add: repNullifierSpent_def)

lemma findNonceStarter_none:
  "0 \<le> n \<Longrightarrow> b \<le> 2 ^ 53 \<Longrightarrow>
   (findNonceStarter cr sync (identityNullifier s) (latestTransitionedEpoch s) attester
      (Fin b) n = Some (- 1))
     \<longleftrightarrow> (\<forall>m. n \<le> m \<and> m < b \<longrightarrow> repNullifierSpent cr sync s attester m)"
proof (induction "nat (b - n)" arbitrary: n)
  case 0
  then show ?case by (subst findNonceStarter_unfold) auto
next
  case (Suc k)
  then have lt: "n < b" and k: "k = nat (b - (n + 1))" and n1: "0 \<le> n + 1" by auto
  note ih = Suc.hyps(1) [OF k n1 Suc.prems(2)]
  from lt Suc.prems(2) have small: "\<not> 2 ^ 53 \<le> n" by simp
  show ?case
  proof (cases "repNullifierSpent cr sync s attester n")
    case False
    with lt Suc.prems show ?thesis
      by (subst findNonceStarter_unfold) auto
  next
    case True
    have "(\<forall>m. n \<le> m \<and> m < b \<longrightarrow> repNullifierSpent cr sync s attester m)
          \<longleftrightarrow> (\<forall>m. n + 1 \<le> m \<and> m < b \<longrightarrow> repNullifierSpent cr sync s attester m)"
      using True by (metis add1_zle_eq order_le_less)
    with True lt ih small show ?thesis
      by (subst findNonceStarter_unfold) simp
  qed
qed

lemma findNonceStarter_least:
  "0 \<le> n \<Longrightarrow> n \<le> n0 \<Longrightarrow> n0 < b \<Longrightarrow> b \<le> 2 ^ 53 \<Longrightarrow>
   \<not> repNullifierSpent cr sync s attester n0 \<Longrightarrow>
   (\<forall>m. n \<le> m \<and> m < n0 \<longrightarrow> repNullifierSpent cr sync s attester m) \<Longrightarrow>
   findNonceStarter cr sync (identityNullifier s) (latestTransitionedEpoch s) attester
     (Fin b) n = Some n0"
proof (induction "nat (n0 - n)" arbitrary: n)
  case 0
  then have "n = n0" by simp
  with 0 show ?case by (subst findNonceStarter_unfold) simp
next
  case (Suc k)
  then have lt: "n < n0" and k: "k = nat (n0 - (n + 1))" by auto
  with Suc.prems have sp: "repNullifierSpent cr sync s attester n" by simp
  from lt Suc.prems have small: "\<not> 2 ^ 53 \<le> n" by simp
  have "findNonceStarter cr sync (identityNullifier s) (latestTransitionedEpoch s) attester
          (Fin b) (n + 1) = Some n0"
    using Suc.hyps(1) [OF k] Suc.prems lt by simp
  with sp lt small Suc.prems show ?case
    by (subst findNonceStarter_unfold) simp
qed

lemma genProveReputationProof_omitted:
  "genProveReputationProof cr sync s attester epkNonce minRep pg gpi None =
   genProveReputationProof cr sync s attester epkNonce minRep pg gpi
     (Some (replicate (maxReputationBudget sync) (- 1)))"
  by (simp add: genProveReputationProof_def)

lemma genProveReputationProof_early:
  "\<not> (hasSignedUp s \<and> epkNonce < int (numEpochKeyNoncePerEpoch sync) \<and>
      length nl = maxReputationBudget sync \<and> gstProofOk sync s) \<Longrightarrow>
   genProveReputationProof cr sync s attester epkNonce minRep pg gpi (Some nl)
     \<in> {Some (Inl NotSignedUp), Some (Inl NonceOutOfRange), Some (Inl NonceListLength),
        Some (Inl External)}"
  by (auto simp: genProveReputationProof_def gstProofOk_def Let_def split: option.splits)

lemma genProveReputationProof_checked:
  assumes "hasSignedUp s" "epkNonce < int (numEpochKeyNoncePerEpoch sync)"
    "length nl = maxReputationBudget sync" "gstProofOk sync s"
  shows "\<not> distinct (requested nl) \<Longrightarrow>
           genProveReputationProof cr sync s attester epkNonce minRep pg gpi (Some nl)
             = Some (Inl DuplicateNullifier)"
    and "distinct (requested nl) \<Longrightarrow> requested nl \<noteq> [] \<Longrightarrow>
           nonceStarterOf cr sync s attester = Some (- 1) \<Longrightarrow>
           genProveReputationProof cr sync s attester epkNonce minRep pg gpi (Some nl)
             = Some (Inl AllNullifiersSpent)"
    and "distinct (requested nl) \<Longrightarrow> requested nl \<noteq> [] \<Longrightarrow>
           nonceStarterOf cr sync s attester = Some k \<Longrightarrow> k \<noteq> - 1 \<Longrightarrow>
           \<not> jsLessEq (roundDouble (k + int (length (requested nl)))) (repBound s attester) \<Longrightarrow>
           genProveReputationProof cr sync s attester epkNonce minRep pg gpi (Some nl)
             = Some (Inl NotEnoughReputation)"
    and "distinct (requested nl) \<Longrightarrow>
           requested nl = [] \<or>
           (nonceStarterOf cr sync s attester = Some k \<and> k \<noteq> - 1 \<and>
            jsLessEq (roundDouble (k + int (length (requested nl)))) (repBound s attester)) \<Longrightarrow>
           \<exists>inp. genProveReputationProof cr sync s attester epkNonce minRep pg gpi (Some nl)
                   = Some (Inr inp) \<and>
              rc_rep_nullifiers_amount inp = length (requested nl) \<and>
              rc_selectors inp = map (\<lambda>x. if x \<noteq> - 1 then 1 else 0) nl \<and>
              rc_rep_nonce inp = nl"
    and "distinct (requested nl) \<Longrightarrow> requested nl \<noteq> [] \<Longrightarrow>
           nonceStarterOf cr sync s attester = None \<Longrightarrow>
           genProveReputationProof cr sync s attester epkNonce minRep pg gpi (Some nl) = None"
  using assms
  by (auto simp: genProveReputationProof_def gstProofOk_def Let_def selectNonces_top
      repBound_def nonceStarterOf_def reputationCircuitInputs_def split: option.splits)

lemma nonceStarterOf_none:
  "exactReputation s attester count \<Longrightarrow>
   (nonceStarterOf cr sync s attester = Some (- 1)) \<longleftrightarrow>
     (\<forall>n. 0 \<le> n \<and> n < repBalance s attester \<longrightarrow> repNullifierSpent cr sync s attester n)"
  unfolding nonceStarterOf_def
  by (simp add: repBound_exact [of s attester count])
    (rule findNonceStarter_none, simp_all add: exactReputation_def repBalance_def)

lemma nonceStarterOf_least:
  "exactReputation s attester count \<Longrightarrow>
   0 \<le> n0 \<Longrightarrow> n0 < repBalance s attester \<Longrightarrow> \<not> repNullifierSpent cr sync s attester n0 \<Longrightarrow>
   (\<forall>m. 0 \<le> m \<and> m < n0 \<longrightarrow> repNullifierSpent cr sync s attester m) \<Longrightarrow>
   nonceStarterOf cr sync s attester = Some n0"
  unfolding nonceStarterOf_def
  by (simp add: repBound_exact [of s attester count])
    (rule findNonceStarter_least, auto simp add: exactReputation_def repBalance_def)

lemma exactReputation_sum:
  "exactReputation s attester count \<Longrightarrow> 0 \<le> n0 \<Longrightarrow> n0 < repBalance s attester \<Longrightarrow>
   jsLessEq (roundDouble (n0 + int count)) (repBound s attester)
     \<longleftrightarrow> n0 + int count \<le> repBalance s attester"
proof -
  assume e: "exactReputation s attester count" and n: "0 \<le> n0" "n0 < repBalance s attester"
  from e n have "\<bar>n0 + int count\<bar> \<le> 2 ^ 53"
    by (simp add: exactReputation_def repBalance_def)
  then show ?thesis
    by (simp add: roundDouble_exact repBound_exact [OF e])
qed

text \<open>
  C4 (as the code has it).  For a signed-up user and an epoch-key nonce below
  \<open>numEpochKeyNoncePerEpoch\<close>, \<open>genProveReputationProof\<close> fails when the nonce list holds
  the same nonce other than \<open>-1\<close> at two positions.  When at least one nonce is requested,
  and the reputation lies where the Numbers of the method are exact (\<open>posRep\<close> and
  \<open>negRep\<close> not negative, \<open>negRep\<close> at most \<open>2^53\<close>, and \<open>posRep\<close> plus the number of
  requested nonces at most \<open>2^53\<close>), it fails when every reputation nullifier of a nonce in
  \<open>[0, posRep - negRep)\<close> is spent (the assertion \<open>All nullifiers are spent\<close>, once the
  earlier checks have passed), and when the smallest unspent nonce \<open>n0\<close> of that interval
  has \<open>n0 + requestedCount > posRep - negRep\<close> (the assertion
  \<open>Not enough reputation to spend\<close>).
\<close>

theorem genProveReputationProof_failures:
  assumes "hasSignedUp s" "epkNonce < int (numEpochKeyNoncePerEpoch sync)"
  shows "(\<not> distinct (requested nl) \<longrightarrow>
            (\<exists>e. genProveReputationProof cr sync s attester epkNonce minRep pg gpi (Some nl)
                    = Some (Inl e)))
       \<and> (exactReputation s attester (length (requested nl)) \<and> requested nl \<noteq> [] \<and>
          (\<forall>n. 0 \<le> n \<and> n < repBalance s attester \<longrightarrow> repNullifierSpent cr sync s attester n)
          \<longrightarrow> (\<exists>e. genProveReputationProof cr sync s attester epkNonce minRep pg gpi (Some nl)
                    = Some (Inl e)))
       \<and> (exactReputation s attester (length (requested nl)) \<and> requested nl \<noteq> [] \<and>
          0 \<le> n0 \<and> n0 < repBalance s attester \<and>
          \<not> repNullifierSpent cr sync s attester n0 \<and>
          (\<forall>m. 0 \<le> m \<and> m < n0 \<longrightarrow> repNullifierSpent cr sync s attester m) \<and>
          repBalance s attester < n0 + int (length (requested nl))
          \<longrightarrow> (\<exists>e. genProveReputationProof cr sync s attester epkNonce minRep pg gpi (Some nl)
                    = Some (Inl e)))
       \<and> (exactReputation s attester (length (requested nl)) \<and>
          distinct (requested nl) \<and> length nl = maxReputationBudget sync \<and> gstProofOk sync s \<and>
          requested nl \<noteq> [] \<and>
          (\<forall>n. 0 \<le> n \<and> n < repBalance s attester \<longrightarrow> repNullifierSpent cr sync s attester n)
          \<longrightarrow> genProveReputationProof cr sync s attester epkNonce minRep pg gpi (Some nl)
                = Some (Inl AllNullifiersSpent))
       \<and> (exactReputation s attester (length (requested nl)) \<and>
          distinct (requested nl) \<and> length nl = maxReputationBudget sync \<and> gstProofOk sync s \<and>
          requested nl \<noteq> [] \<and> 0 \<le> n0 \<and> n0 < repBalance s attester \<and>
          \<not> repNullifierSpent cr sync s attester n0 \<and>
          (\<forall>m. 0 \<le> m \<and> m < n0 \<longrightarrow> repNullifierSpent cr sync s attester m) \<and>
          repBalance s attester < n0 + int (length (requested nl))
          \<longrightarrow> genProveReputationProof cr sync s attester epkNonce minRep pg gpi (Some nl)
                = Some (Inl NotEnoughReputation))"
proof (cases "length nl = maxReputationBudget sync \<and> gstProofOk sync s")
  case False
  with genProveReputationProof_early [of s epkNonce sync nl cr attester minRep pg gpi]
  have "\<exists>e. genProveReputationProof cr sync s attester epkNonce minRep pg gpi (Some nl)
          = Some (Inl e)"
    by auto
  with False show ?thesis by auto
next
  case True
  let ?count = "length (requested nl)"
  let ?res = "genProveReputationProof cr sync s attester epkNonce minRep pg gpi (Some nl)"
  from True have chk: "length nl = maxReputationBudget sync" "gstProofOk sync s" by auto
  note chk = genProveReputationProof_checked [OF assms chk,
    where cr = cr and attester = attester and minRep = minRep and pg = pg and gpi = gpi]
  have c1: "\<not> distinct (requested nl) \<longrightarrow> ?res = Some (Inl DuplicateNullifier)"
    using chk(1) by simp
  have c4: "exactReputation s attester ?count \<and> distinct (requested nl) \<and> requested nl \<noteq> [] \<and>
          (\<forall>n. 0 \<le> n \<and> n < repBalance s attester \<longrightarrow> repNullifierSpent cr sync s attester n)
          \<longrightarrow> ?res = Some (Inl AllNullifiersSpent)"
    using chk(2) nonceStarterOf_none [of s attester ?count cr sync] by simp
  have c5: "exactReputation s attester ?count \<and> distinct (requested nl) \<and>
          requested nl \<noteq> [] \<and> 0 \<le> n0 \<and> n0 < repBalance s attester \<and>
          \<not> repNullifierSpent cr sync s attester n0 \<and>
          (\<forall>m. 0 \<le> m \<and> m < n0 \<longrightarrow> repNullifierSpent cr sync s attester m) \<and>
          repBalance s attester < n0 + int ?count
          \<longrightarrow> ?res = Some (Inl NotEnoughReputation)"
  proof
    assume a: "exactReputation s attester ?count \<and> distinct (requested nl) \<and>
          requested nl \<noteq> [] \<and> 0 \<le> n0 \<and> n0 < repBalance s attester \<and>
          \<not> repNullifierSpent cr sync s attester n0 \<and>
          (\<forall>m. 0 \<le> m \<and> m < n0 \<longrightarrow> repNullifierSpent cr sync s attester m) \<and>
          repBalance s attester < n0 + int ?count"
    then have st: "nonceStarterOf cr sync s attester = Some n0"
      using nonceStarterOf_least [of s attester ?count n0 cr sync] by blast
    from a have "\<not> jsLessEq (roundDouble (n0 + int ?count)) (repBound s attester)"
      using exactReputation_sum [of s attester ?count n0] by simp
    with a st chk(3) [where k = n0] show "?res = Some (Inl NotEnoughReputation)"
      by auto
  qed
  from c1 c4 c5 True show ?thesis by (cases "distinct (requested nl)") auto
qed

lemma richState_bound: "repBalance richState 1 = 2" "exactReputation richState 1 2"
  "exactReputation richState 1 (Suc (Suc 0))"
  by (simp_all add: repBalance_def exactReputation_def getRepByAttester_def richState_def
      signedUpState_def leavesOf_def)

lemma spentSync_spent:
  "repNullifierSpent sampleCrypto (spentSync k) richState 1 n \<longleftrightarrow> n = k"
  by (simp add: repNullifierSpent_def spentSync_def sampleCrypto_def)

lemma richState_ok:
  "hasSignedUp richState" "gstProofOk (spentSync k) richState"
  "gstProofOk (sampleSync 1) richState"
  "(0::int) < int (numEpochKeyNoncePerEpoch (spentSync k))"
  "(0::int) < int (numEpochKeyNoncePerEpoch (sampleSync 1))"
  "maxReputationBudget (spentSync k) = 2" "maxReputationBudget (sampleSync 1) = 2"
  "0 < numEpochKeyNoncePerEpoch (spentSync k)" "0 < numEpochKeyNoncePerEpoch (sampleSync 1)"
  by (simp_all add: richState_def signedUpState_def gstProofOk_def spentSync_def
      sampleSync_def sampleTree_def)

lemma allSpentSync_ok:
  "gstProofOk allSpentSync richState" "maxReputationBudget allSpentSync = 2"
  "0 < numEpochKeyNoncePerEpoch allSpentSync"
  "(0::int) < int (numEpochKeyNoncePerEpoch allSpentSync)"
  "repNullifierSpent sampleCrypto allSpentSync richState 1 n"
  by (simp_all add: richState_def signedUpState_def gstProofOk_def allSpentSync_def
      sampleSync_def sampleTree_def repNullifierSpent_def)

theorem genProveReputationProof_failures_witness:
  "hasSignedUp richState \<and> (0::int) < int (numEpochKeyNoncePerEpoch (spentSync 0)) \<and>
   \<not> distinct (requested [3, 3]) \<and>
   genProveReputationProof sampleCrypto (spentSync 0) richState 1 0 None None None
     (Some [3, 3]) = Some (Inl DuplicateNullifier) \<and>
   exactReputation richState 1 (length (requested [0, 1])) \<and>
   requested [0, 1] \<noteq> [] \<and> distinct (requested [0, 1]) \<and>
   length [0, 1 :: int] = maxReputationBudget (spentSync 0) \<and> gstProofOk (spentSync 0) richState \<and>
   (0::int) \<le> 1 \<and> 1 < repBalance richState 1 \<and>
   \<not> repNullifierSpent sampleCrypto (spentSync 0) richState 1 1 \<and>
   repNullifierSpent sampleCrypto (spentSync 0) richState 1 0 \<and>
   repBalance richState 1 < 1 + int (length (requested [0, 1])) \<and>
   genProveReputationProof sampleCrypto (spentSync 0) richState 1 0 None None None
     (Some [0, 1]) = Some (Inl NotEnoughReputation) \<and>
   (0::int) < int (numEpochKeyNoncePerEpoch allSpentSync) \<and>
   length [0, 1 :: int] = maxReputationBudget allSpentSync \<and> gstProofOk allSpentSync richState \<and>
   repNullifierSpent sampleCrypto allSpentSync richState 1 0 \<and>
   repNullifierSpent sampleCrypto allSpentSync richState 1 1 \<and>
   genProveReputationProof sampleCrypto allSpentSync richState 1 0 None None None
     (Some [0, 1]) = Some (Inl AllNullifiersSpent)"
proof -
  have below: "\<forall>m::int. 0 \<le> m \<and> m < 1 \<longrightarrow> repNullifierSpent sampleCrypto (spentSync 0) richState 1 m"
    by (auto simp: spentSync_spent)
  have req: "requested [3, 3] = [3, 3]" "requested [0, 1] = [0, 1]"
    by (simp_all add: requested_def)
  have dup: "genProveReputationProof sampleCrypto (spentSync 0) richState 1 0 None None None
     (Some [3, 3]) = Some (Inl DuplicateNullifier)"
    by code_simp
  from genProveReputationProof_failures [OF richState_ok(1) richState_ok(4) [of 0],
      of "[3, 3]" sampleCrypto 1 None None None 1]
    genProveReputationProof_failures [OF richState_ok(1) richState_ok(4) [of 0],
      of "[0, 1]" sampleCrypto 1 None None None 1]
    genProveReputationProof_failures [OF richState_ok(1) allSpentSync_ok(4),
      of "[0, 1]" sampleCrypto 1 None None None 0]
    below dup
  show ?thesis
    by (simp add: req richState_bound spentSync_spent richState_ok allSpentSync_ok)
qed

text \<open>
  C4 (as stated) fails.  With \<open>posRep - negRep = 2\<close>, the nullifier of nonce 1 spent and
  the two nonces 0 and 1 requested, no starting nonce has two unspent nullifiers in a row
  within the bound, yet neither assertion fails and the circuit inputs go to the prover:
  only the nullifier of the starter itself is looked up.  And with \<open>posRep = 2^53 + 3\<close>,
  \<open>negRep = 2^53 + 2\<close>, no nullifier spent and the nonces 0 and 1 requested, no starting
  nonce \<open>n\<close> has \<open>n + 2 \<le> posRep - negRep = 1\<close>, yet neither assertion fails: the method
  compares with \<open>Number(posRep) - Number(negRep)\<close>, which is 2.
\<close>

theorem genProveReputationProof_range_counterexample:
  "hasSignedUp richState \<and> (0::int) < int (numEpochKeyNoncePerEpoch (spentSync 1)) \<and>
   requested [0, 1] = [0, 1] \<and>
   \<not> unspentRangeExists sampleCrypto (spentSync 1) richState 1 (length (requested [0, 1])) \<and>
   map_option isl (genProveReputationProof sampleCrypto (spentSync 1) richState 1 0 None None
     None (Some [0, 1])) = Some False \<and>
   hasSignedUp hugeState \<and> (0::int) < int (numEpochKeyNoncePerEpoch (sampleSync 1)) \<and>
   repBalance hugeState 1 = 1 \<and>
   \<not> unspentRangeExists sampleCrypto (sampleSync 1) hugeState 1 (length (requested [0, 1])) \<and>
   map_option isl (genProveReputationProof sampleCrypto (sampleSync 1) hugeState 1 0 None None
     None (Some [0, 1])) = Some False"
  by code_simp

lemma genProveReputationProof_duplicate_given:
  "genProveReputationProof cr sync s attester epkNonce minRep pg gpi (Some nl)
      = Some (Inl DuplicateNullifier) \<longleftrightarrow>
   hasSignedUp s \<and> epkNonce < int (numEpochKeyNoncePerEpoch sync) \<and> gstProofOk sync s \<and>
   length nl = maxReputationBudget sync \<and> \<not> distinct (requested nl)"
proof (cases "hasSignedUp s \<and> epkNonce < int (numEpochKeyNoncePerEpoch sync) \<and>
    length nl = maxReputationBudget sync \<and> gstProofOk sync s")
  case False
  with genProveReputationProof_early [of s epkNonce sync nl cr attester minRep pg gpi]
  show ?thesis by auto
next
  case True
  then have a: "hasSignedUp s" "epkNonce < int (numEpochKeyNoncePerEpoch sync)"
    "length nl = maxReputationBudget sync" "gstProofOk sync s" by auto
  note chk = genProveReputationProof_checked [OF a,
    where cr = cr and attester = attester and minRep = minRep and pg = pg and gpi = gpi]
  let ?count = "length (requested nl)"
  show ?thesis
  proof (cases "distinct (requested nl)")
    case False
    with chk(1) True show ?thesis by simp
  next
    case d: True
    have "genProveReputationProof cr sync s attester epkNonce minRep pg gpi (Some nl)
            \<noteq> Some (Inl DuplicateNullifier)"
    proof (cases "requested nl = []")
      case True
      with chk(4) [OF d, where k = 0] show ?thesis by auto
    next
      case ne: False
      show ?thesis
      proof (cases "nonceStarterOf cr sync s attester")
        case None
        with chk(5) [OF d ne] show ?thesis by simp
      next
        case (Some k)
        show ?thesis
        proof (cases "k = - 1")
          case True
          with Some chk(2) [OF d ne] show ?thesis by simp
        next
          case k: False
          show ?thesis
          proof (cases "jsLessEq (roundDouble (k + int ?count)) (repBound s attester)")
            case True
            with Some k chk(4) [OF d, where k = k] show ?thesis by auto
          next
            case False
            with Some k chk(3) [OF d ne, where k = k] show ?thesis by simp
          qed
        qed
      qed
    qed
    with d show ?thesis by simp
  qed
qed

text \<open>
  C5 (as the code has it).  \<open>genProveReputationProof\<close> fails with the duplicated-nonce
  assertion exactly when the user has signed up, the epoch-key nonce is in range, the
  global state tree and its proof can be built, and the nonce list of this very call has
  the required length and holds the same nonce other than \<open>-1\<close> at two positions.  The
  state of the identity and the nullifiers the ledger has seen play no part, and the call
  changes neither: an earlier call that requested the same nonce does not make a later
  call fail.
\<close>

theorem genProveReputationProof_duplicate_iff:
  "genProveReputationProof cr sync s attester epkNonce minRep pg gpi nonceList
      = Some (Inl DuplicateNullifier) \<longleftrightarrow>
   hasSignedUp s \<and> epkNonce < int (numEpochKeyNoncePerEpoch sync) \<and> gstProofOk sync s \<and>
   (\<exists>nl. nonceList = Some nl \<and> length nl = maxReputationBudget sync \<and>
      \<not> distinct (requested nl))"
proof (cases nonceList)
  case None
  have "requested (replicate (maxReputationBudget sync) (- 1)) = []"
    by (simp add: requested_def)
  with None genProveReputationProof_duplicate_given
    [of cr sync s attester epkNonce minRep pg gpi "replicate (maxReputationBudget sync) (- 1)"]
  show ?thesis
    by (simp add: genProveReputationProof_omitted)
next
  case (Some nl)
  with genProveReputationProof_duplicate_given
    [of cr sync s attester epkNonce minRep pg gpi nl]
  show ?thesis by simp
qed

theorem genProveReputationProof_duplicate_iff_witness:
  "genProveReputationProof sampleCrypto (sampleSync 1) richState 1 0 None None None
     (Some [3, 3]) = Some (Inl DuplicateNullifier) \<and>
   hasSignedUp richState \<and> (0::int) < int (numEpochKeyNoncePerEpoch (sampleSync 1)) \<and>
   gstProofOk (sampleSync 1) richState \<and> length [3, 3 :: int] = maxReputationBudget (sampleSync 1) \<and>
   \<not> distinct (requested [3, 3])"
  using genProveReputationProof_duplicate_iff
    [of sampleCrypto "sampleSync 1" richState 1 0 None None None "Some [3, 3]"]
  by (simp add: richState_ok requested_def)

text \<open>
  C5 (as stated) fails: a call requesting the nonce 0 succeeds, and a second call requesting
  the nonces 0 and 1 succeeds as well.  Even when the ledger has since seen the nullifier
  of nonce 0, the second call fails with the not-enough-reputation assertion, not with the
  duplicated-nonce one.
\<close>

theorem genProveReputationProof_overlap_counterexample:
  "map_option isl (genProveReputationProof sampleCrypto (sampleSync 1) richState 1 0 None None
     None (Some [0, - 1])) = Some False \<and>
   set (requested [0, - 1]) \<inter> set (requested [0, 1]) = {0} \<and>
   map_option isl (genProveReputationProof sampleCrypto (sampleSync 1) richState 1 0 None None
     None (Some [0, 1])) = Some False \<and>
   genProveReputationProof sampleCrypto (spentSync 0) richState 1 0 None None None
     (Some [0, 1]) = Some (Inl NotEnoughReputation)"
proof -
  have "set (requested [0, - 1]) \<inter> set (requested [0, 1]) = {0}"
    by (simp add: requested_def)
  moreover have "map_option isl (genProveReputationProof sampleCrypto (sampleSync 1) richState
     1 0 None None None (Some [0, - 1])) = Some False"
    "map_option isl (genProveReputationProof sampleCrypto (sampleSync 1) richState 1 0 None None
     None (Some [0, 1])) = Some False"
    "genProveReputationProof sampleCrypto (spentSync 0) richState 1 0 None None None
     (Some [0, 1]) = Some (Inl NotEnoughReputation)"
    by code_simp+
  ultimately show ?thesis by simp
qed

lemma genProveReputationProof_none_requested:
  assumes "\<forall>x \<in> set nl. x = - 1"
  shows "genProveReputationProof cr sync s attester epkNonce minRep pg gpi (Some nl) =
     (if \<not> hasSignedUp s then Some (Inl NotSignedUp)
      else if \<not> epkNonce < int (numEpochKeyNoncePerEpoch sync) then Some (Inl NonceOutOfRange)
      else if length nl \<noteq> maxReputationBudget sync then Some (Inl NonceListLength)
      else case genGSTree sync (latestTransitionedEpoch s) of
             None \<Rightarrow> Some (Inl External)
           | Some GSTree \<Rightarrow>
               (case imt_createProof GSTree (latestGSTLeafIndex s) of
                  None \<Rightarrow> Some (Inl External)
                | Some GSTreeProof \<Rightarrow>
                    Some (Inr (reputationCircuitInputs cr s attester epkNonce minRep pg gpi
                           GSTree GSTreeProof 0 (replicate (length nl) 0) nl))))"
proof -
  from assms have req: "requested nl = []"
    by (auto simp: requested_def filter_empty_conv)
  from assms have sel:
    "map (\<lambda>x::int. if x \<noteq> - 1 then (1::int) else 0) nl = replicate (length nl) 0"
    by (induction nl) auto
  show ?thesis
    by (simp add: genProveReputationProof_def Let_def selectNonces_top req sel
        split: option.splits)
qed

text \<open>
  C10.  When the nonce list is omitted, or every entry of it is \<open>-1\<close>,
  \<open>genProveReputationProof\<close> never fails with the all-nullifiers-spent or the
  not-enough-reputation assertion, whatever the reputation balance; it returns, and its
  outcome does not depend on which nullifiers the ledger has seen (the search for an
  unspent nonce is skipped); the circuit inputs it builds request zero reputation
  nullifiers, with every selector 0; and for a signed-up user with a valid epoch-key
  nonce, a list of the required length (or none) and a global state tree that can be
  built, the call succeeds.
\<close>

theorem genProveReputationProof_no_nonces:
  assumes "nonceList = None \<or> (\<exists>nl. nonceList = Some nl \<and> (\<forall>x \<in> set nl. x = - 1))"
  shows "genProveReputationProof cr sync s attester epkNonce minRep pg gpi nonceList
           \<noteq> Some (Inl AllNullifiersSpent)
       \<and> genProveReputationProof cr sync s attester epkNonce minRep pg gpi nonceList
           \<noteq> Some (Inl NotEnoughReputation)
       \<and> genProveReputationProof cr sync s attester epkNonce minRep pg gpi nonceList \<noteq> None
       \<and> genProveReputationProof cr (sync\<lparr>nullifierExist := spent\<rparr>) s attester epkNonce
           minRep pg gpi nonceList
         = genProveReputationProof cr sync s attester epkNonce minRep pg gpi nonceList
       \<and> (\<forall>inp. genProveReputationProof cr sync s attester epkNonce minRep pg gpi nonceList
                  = Some (Inr inp) \<longrightarrow>
            rc_rep_nullifiers_amount inp = 0 \<and>
            rc_selectors inp = replicate (maxReputationBudget sync) 0)
       \<and> (hasSignedUp s \<and> epkNonce < int (numEpochKeyNoncePerEpoch sync) \<and>
          gstProofOk sync s \<and>
          (\<forall>nl. nonceList = Some nl \<longrightarrow> length nl = maxReputationBudget sync) \<longrightarrow>
          (\<exists>inp. genProveReputationProof cr sync s attester epkNonce minRep pg gpi nonceList
                   = Some (Inr inp)))"
proof -
  define nl where "nl = (case nonceList of None \<Rightarrow> replicate (maxReputationBudget sync) (- 1)
                                          | Some l \<Rightarrow> l)"
  from assms have all: "\<forall>x \<in> set nl. x = - 1"
    by (auto simp: nl_def)
  have same: "genProveReputationProof cr sy s attester epkNonce minRep pg gpi nonceList =
      genProveReputationProof cr sy s attester epkNonce minRep pg gpi (Some nl)"
    if "maxReputationBudget sy = maxReputationBudget sync" for sy
    using that by (cases nonceList) (simp_all add: nl_def genProveReputationProof_omitted)
  note eq = genProveReputationProof_none_requested [OF all]
  have len: "length nl = maxReputationBudget sync"
    if "\<forall>l. nonceList = Some l \<longrightarrow> length l = maxReputationBudget sync"
    using that by (cases nonceList) (simp_all add: nl_def)
  have p1: "genProveReputationProof cr sync s attester epkNonce minRep pg gpi nonceList
           \<noteq> Some (Inl AllNullifiersSpent)"
    and p2: "genProveReputationProof cr sync s attester epkNonce minRep pg gpi nonceList
           \<noteq> Some (Inl NotEnoughReputation)"
    and p0: "genProveReputationProof cr sync s attester epkNonce minRep pg gpi nonceList
           \<noteq> None"
    by (simp_all add: same eq split: option.splits)
  have p3: "genProveReputationProof cr (sync\<lparr>nullifierExist := spent\<rparr>) s attester epkNonce
           minRep pg gpi nonceList
         = genProveReputationProof cr sync s attester epkNonce minRep pg gpi nonceList"
    by (simp add: same eq)
  have p4: "\<forall>inp. genProveReputationProof cr sync s attester epkNonce minRep pg gpi nonceList
                  = Some (Inr inp) \<longrightarrow>
            rc_rep_nullifiers_amount inp = 0 \<and>
            rc_selectors inp = replicate (maxReputationBudget sync) 0"
    by (auto simp: same eq reputationCircuitInputs_def Let_def split: option.splits if_splits)
  have p5: "hasSignedUp s \<and> epkNonce < int (numEpochKeyNoncePerEpoch sync) \<and>
          gstProofOk sync s \<and>
          (\<forall>nl. nonceList = Some nl \<longrightarrow> length nl = maxReputationBudget sync) \<longrightarrow>
          (\<exists>inp. genProveReputationProof cr sync s attester epkNonce minRep pg gpi nonceList
                   = Some (Inr inp))"
    using len by (auto simp: same eq gstProofOk_def split: option.splits)
  from p0 p1 p2 p3 p4 p5 show ?thesis by blast
qed

theorem genProveReputationProof_no_nonces_witness:
  "negRep (getRepByAttester poorState 1) > posRep (getRepByAttester poorState 1) \<and>
   hasSignedUp poorState \<and> (0::int) < int (numEpochKeyNoncePerEpoch allSpentSync) \<and>
   gstProofOk allSpentSync poorState \<and>
   map_option isl
     (genProveReputationProof sampleCrypto allSpentSync poorState 1 0 None None None None)
     = Some False \<and>
   set [- 1, - 1 :: int] = {- 1} \<and> length [- 1, - 1 :: int] = maxReputationBudget allSpentSync \<and>
   map_option isl
     (genProveReputationProof sampleCrypto allSpentSync poorState 1 0 None None None
        (Some [- 1, - 1])) = Some False"
  using genProveReputationProof_no_nonces
      [of None sampleCrypto allSpentSync poorState 1 0 None None None "\<lambda>_. False"]
    genProveReputationProof_no_nonces
      [of "Some [- 1, - 1]" sampleCrypto allSpentSync poorState 1 0 None None None "\<lambda>_. False"]
  by (auto simp add: poorState_def signedUpState_def allSpentSync_def sampleSync_def
      gstProofOk_def sampleTree_def getRepByAttester_def leavesOf_def)


section \<open>Serialization round trip\<close>

lemma find_attester_None:
  "a \<notin> attesterId ` set ls \<Longrightarrow> find (\<lambda>l. attesterId l = a) ls = None"
  by (auto simp: find_None_iff)

lemma leavesToString_lookup:
  "distinct (map attesterId ls) \<Longrightarrow>
   map_of (leavesToString c ls acc) k =
     (case find (\<lambda>l. attesterId l = k) ls of
        Some l \<Rightarrow> Some (repToJSON c (reputation l))
      | None \<Rightarrow> map_of acc k)"
proof (induction ls arbitrary: acc)
  case Nil
  then show ?case by simp
next
  case (Cons x ls)
  from Cons.prems have d: "distinct (map attesterId ls)" and
    nx: "attesterId x \<notin> attesterId ` set ls" by auto
  show ?case
  proof (cases "attesterId x = k")
    case True
    with nx have "find (\<lambda>l. attesterId l = k) ls = None"
      by (simp add: find_attester_None)
    with True Cons.IH [OF d] show ?thesis
      by (simp add: update_conv')
  next
    case False
    with Cons.IH [OF d] show ?thesis
      by (simp add: update_conv' split: option.splits)
  qed
qed

lemma set_js_keys: "set (js_keys obj) = fst ` set obj"
  by (auto simp: js_keys_def)

lemma find_parsed:
  "find (\<lambda>leaf. attesterId leaf = a)
     (map (\<lambda>key. \<lparr>attesterId = key, reputation = f key\<rparr>) ks) =
   (if a \<in> set ks then Some \<lparr>attesterId = a, reputation = f a\<rparr> else None)"
  by (induction ks) auto

lemma storeOf_map: "map (storeOf leaves) [0..<length leaves] = leaves"
  by (rule nth_equalityI) (auto simp: storeOf_def)

lemma fromJSON_toJSON_fields:
  "\<exists>s'. fromJSON c ident (toJSON cr sync c s) = Inr s' \<and>
     hasSignedUp s' = hasSignedUp s \<and>
     latestTransitionedEpoch s' = latestTransitionedEpoch s \<and>
     latestGSTLeafIndex s' = latestGSTLeafIndex s \<and>
     leavesOf s' (latestUserStateLeaves s') =
       parseLeaves c (leavesToString c (leavesOf s (latestUserStateLeaves s)) [])"
  by (simp add: fromJSON_def toJSON_def UserState_new_def Let_def leavesOf_def storeOf_map)

lemma getRep_parseLeaves:
  assumes rt: "\<And>r. repParse c (repToJSON c r) = r"
    and d: "distinct (map attesterId ls)"
  shows "(case find (\<lambda>leaf. attesterId leaf = a) (parseLeaves c (leavesToString c ls [])) of
            Some leaf \<Rightarrow> reputation leaf | None \<Rightarrow> Reputation_default) =
         (case find (\<lambda>leaf. attesterId leaf = a) ls of
            Some leaf \<Rightarrow> reputation leaf | None \<Rightarrow> Reputation_default)"
proof -
  let ?obj = "leavesToString c ls []"
  have look: "map_of ?obj a =
      (case find (\<lambda>l. attesterId l = a) ls of
         Some l \<Rightarrow> Some (repToJSON c (reputation l)) | None \<Rightarrow> None)"
    using leavesToString_lookup [OF d, of c "[]" a] by (simp split: option.splits)
  have mem: "a \<in> set (js_keys ?obj) \<longleftrightarrow> map_of ?obj a \<noteq> None"
    by (simp add: set_js_keys map_of_eq_None_iff)
  show ?thesis
    unfolding parseLeaves_def find_parsed
    using look mem rt by (cases "find (\<lambda>l. attesterId l = a) ls") auto
qed

lemma distinct_js_keys: "distinct (map fst obj) \<Longrightarrow> distinct (js_keys obj)"
  by (auto simp: js_keys_def)

lemma find_attester_Some:
  "distinct (map attesterId ls) \<Longrightarrow> l \<in> set ls \<Longrightarrow>
   find (\<lambda>x. attesterId x = attesterId l) ls = Some l"
  by (induction ls) (auto simp: rev_image_eqI)

lemma set_parseLeaves:
  assumes rt: "\<And>r. repParse c (repToJSON c r) = r"
    and d: "distinct (map attesterId ls)"
  shows "set (parseLeaves c (leavesToString c ls [])) = set ls"
proof -
  let ?obj = "leavesToString c ls []"
  have look: "map_of ?obj a =
      (case find (\<lambda>l. attesterId l = a) ls of
         Some l \<Rightarrow> Some (repToJSON c (reputation l)) | None \<Rightarrow> None)" for a
    using leavesToString_lookup [OF d, of c "[]" a] by (simp split: option.splits)
  have keys: "set (js_keys ?obj) = attesterId ` set ls"
  proof -
    have "a \<in> set (js_keys ?obj) \<longleftrightarrow> a \<in> attesterId ` set ls" for a
    proof -
      have "a \<in> set (js_keys ?obj) \<longleftrightarrow> map_of ?obj a \<noteq> None"
        by (simp add: set_js_keys map_of_eq_None_iff)
      also have "\<dots> \<longleftrightarrow> find (\<lambda>l. attesterId l = a) ls \<noteq> None"
        by (simp add: look split: option.splits)
      also have "\<dots> \<longleftrightarrow> a \<in> attesterId ` set ls"
        by (auto simp: find_None_iff)
      finally show ?thesis .
    qed
    then show ?thesis by blast
  qed
  have leaf: "\<lparr>attesterId = attesterId l,
       reputation = repParse c (the (map_of ?obj (attesterId l)))\<rparr> = l" if "l \<in> set ls" for l
    using find_attester_Some [OF d that] by (simp add: look rt)
  have "set (parseLeaves c ?obj) =
      (\<lambda>key. \<lparr>attesterId = key, reputation = repParse c (the (map_of ?obj key))\<rparr>) `
        attesterId ` set ls"
    by (simp add: parseLeaves_def keys)
  also have "\<dots> = (\<lambda>l. l) ` set ls"
    unfolding image_image by (rule image_cong) (simp_all add: leaf)
  finally show ?thesis by simp
qed

lemma distinct_parseLeaves:
  "distinct (map attesterId (parseLeaves c (leavesToString c ls acc)))"
  if "distinct (map fst acc)"
proof -
  have "distinct (map fst (leavesToString c ls acc))"
    using that by (induction ls arbitrary: acc) (simp_all add: distinct_update)
  then have "distinct (js_keys (leavesToString c ls acc))"
    by (rule distinct_js_keys)
  then show ?thesis
    by (simp add: parseLeaves_def comp_def)
qed

text \<open>
  C9 (as the code has it).  When the serializer of \<open>Reputation\<close> is inverted by parsing,
  and the committed leaves of a state carry pairwise distinct attester ids, \<open>fromJSON\<close>
  applied to the output of \<open>toJSON\<close> returns a state with the same \<open>hasSignedUp\<close>,
  \<open>latestTransitionedEpoch\<close> and \<open>latestGSTLeafIndex\<close>, and with the same
  attesterId-to-Reputation entries: the leaves of the two states are the same set of
  pairs, as many in number (their order may differ), so that every attester id reads the
  same reputation.
\<close>

theorem fromJSON_toJSON:
  assumes "\<And>r. repParse c (repToJSON c r) = r"
    and "distinct (map attesterId (leavesOf s (latestUserStateLeaves s)))"
  shows "\<exists>s'. fromJSON c ident (toJSON cr sync c s) = Inr s' \<and>
     hasSignedUp s' = hasSignedUp s \<and>
     latestTransitionedEpoch s' = latestTransitionedEpoch s \<and>
     latestGSTLeafIndex s' = latestGSTLeafIndex s \<and>
     set (leavesOf s' (latestUserStateLeaves s')) = set (leavesOf s (latestUserStateLeaves s)) \<and>
     length (latestUserStateLeaves s') = length (latestUserStateLeaves s) \<and>
     (\<forall>a. getRepByAttester s' a = getRepByAttester s a)"
proof -
  let ?ls = "leavesOf s (latestUserStateLeaves s)"
  from fromJSON_toJSON_fields [of c ident cr sync s] obtain s' where
    s': "fromJSON c ident (toJSON cr sync c s) = Inr s'"
      "hasSignedUp s' = hasSignedUp s"
      "latestTransitionedEpoch s' = latestTransitionedEpoch s"
      "latestGSTLeafIndex s' = latestGSTLeafIndex s"
      "leavesOf s' (latestUserStateLeaves s') = parseLeaves c (leavesToString c ?ls [])"
    by blast
  let ?ls' = "leavesOf s' (latestUserStateLeaves s')"
  have rep: "getRepByAttester s' a = getRepByAttester s a" for a
    unfolding getRepByAttester_def s'(5)
    by (rule getRep_parseLeaves [OF assms])
  have entries: "set ?ls' = set ?ls"
    unfolding s'(5) by (rule set_parseLeaves [OF assms])
  have "distinct (map attesterId ?ls')"
    unfolding s'(5) by (rule distinct_parseLeaves) simp
  then have "distinct ?ls'" by (rule distinct_map [THEN iffD1, THEN conjunct1])
  moreover from assms(2) have "distinct ?ls"
    by (rule distinct_map [THEN iffD1, THEN conjunct1])
  ultimately have "length ?ls' = length ?ls"
    using entries by (metis distinct_card)
  then have len: "length (latestUserStateLeaves s') = length (latestUserStateLeaves s)"
    by (simp add: leavesOf_def)
  from s'(1-4) entries len rep show ?thesis by blast
qed

theorem fromJSON_toJSON_witness:
  "(\<forall>r. repParse idCodec (repToJSON idCodec r) = r) \<and>
   distinct (map attesterId
     (leavesOf (twoLeafState 5 2) (latestUserStateLeaves (twoLeafState 5 2)))) \<and>
   \<not> isl (fromJSON idCodec sampleIdentity
            (toJSON sampleCrypto (sampleSync 1) idCodec (twoLeafState 5 2))) \<and>
   hasSignedUp (projr (fromJSON idCodec sampleIdentity
            (toJSON sampleCrypto (sampleSync 1) idCodec (twoLeafState 5 2)))) \<and>
   set (leavesOf (projr (fromJSON idCodec sampleIdentity
            (toJSON sampleCrypto (sampleSync 1) idCodec (twoLeafState 5 2))))
          (latestUserStateLeaves (projr (fromJSON idCodec sampleIdentity
            (toJSON sampleCrypto (sampleSync 1) idCodec (twoLeafState 5 2)))))) =
     {\<lparr>attesterId = 5,
        reputation = \<lparr>posRep = 5, negRep = 0, graffiti = 0, signUpFlag = True\<rparr>\<rparr>,
      \<lparr>attesterId = 2,
        reputation = \<lparr>posRep = 9, negRep = 1, graffiti = 0, signUpFlag = False\<rparr>\<rparr>} \<and>
   length (latestUserStateLeaves (projr (fromJSON idCodec sampleIdentity
            (toJSON sampleCrypto (sampleSync 1) idCodec (twoLeafState 5 2))))) = 2 \<and>
   posRep (getRepByAttester (projr (fromJSON idCodec sampleIdentity
            (toJSON sampleCrypto (sampleSync 1) idCodec (twoLeafState 5 2)))) 5) = 5 \<and>
   posRep (getRepByAttester (projr (fromJSON idCodec sampleIdentity
            (toJSON sampleCrypto (sampleSync 1) idCodec (twoLeafState 5 2)))) 2) = 9"
proof -
  have rt: "\<And>r. repParse idCodec (repToJSON idCodec r) = r"
    by (simp add: idCodec_def)
  have d: "distinct (map attesterId
     (leavesOf (twoLeafState 5 2) (latestUserStateLeaves (twoLeafState 5 2))))"
    by (simp add: twoLeafState_def signedUpState_def leavesOf_def)
  have orig: "hasSignedUp (twoLeafState 5 2)"
    "posRep (getRepByAttester (twoLeafState 5 2) 5) = 5"
    "posRep (getRepByAttester (twoLeafState 5 2) 2) = 9"
    "set (leavesOf (twoLeafState 5 2) (latestUserStateLeaves (twoLeafState 5 2))) =
     {\<lparr>attesterId = 5,
        reputation = \<lparr>posRep = 5, negRep = 0, graffiti = 0, signUpFlag = True\<rparr>\<rparr>,
      \<lparr>attesterId = 2,
        reputation = \<lparr>posRep = 9, negRep = 1, graffiti = 0, signUpFlag = False\<rparr>\<rparr>}"
    "length (latestUserStateLeaves (twoLeafState 5 2)) = 2"
    by (simp_all add: twoLeafState_def signedUpState_def leavesOf_def getRepByAttester_def)
  from fromJSON_toJSON [OF rt d, of sampleIdentity sampleCrypto "sampleSync 1"] rt d orig
  show ?thesis by auto
qed

text \<open>
  C9 (as stated) fails on a state whose two leaves both belong to attester 1, the first
  with \<open>posRep = 5\<close> and the second with \<open>posRep = 9\<close>: \<open>getRepByAttester(1)\<close> reads the
  first leaf, the serialized object keeps one entry per attester id, that of the second
  leaf, and the deserialized state reads \<open>posRep = 9\<close>.
\<close>

theorem fromJSON_toJSON_counterexample:
  "\<not> isl (fromJSON idCodec sampleIdentity
            (toJSON sampleCrypto (sampleSync 1) idCodec (twoLeafState 1 1))) \<and>
   posRep (getRepByAttester (twoLeafState 1 1) 1) = 5 \<and>
   posRep (getRepByAttester (projr (fromJSON idCodec sampleIdentity
            (toJSON sampleCrypto (sampleSync 1) idCodec (twoLeafState 1 1)))) 1) = 9"
  by (simp add: fromJSON_def toJSON_def UserState_new_def idCodec_def twoLeafState_def
      signedUpState_def leavesOf_def getRepByAttester_def parseLeaves_def js_keys_def
      isArrayIndex_def storeOf_def sampleIdentity_def)


section \<open>Properties of genUserStateTransitionProofs\<close>

lemma processAttestation_boundary:
  assumes "batchBoundary (NUM_ATTESTATIONS_PER_PROOF cr) i"
    and "processAttestation cr s nonce i a chc acc = (chc', acc')"
  shows "toNonces acc' = toNonces acc @ [nonce]"
    and "fromNonces acc' = fromNonces acc @ [nonce]"
    and "hashChainStarter acc' = hashChainStarter acc @ [chc]"
    and "blindedUserState acc' = blindedUserState acc @
           [hash5 cr [identityNullifier s, smtRoot cr (fromEpochUserStateTree acc),
                      latestTransitionedEpoch s, nonce]]"
  using assms by (auto simp: processAttestation_def Let_def)

lemma processAttestation_inside:
  assumes "\<not> batchBoundary (NUM_ATTESTATIONS_PER_PROOF cr) i"
    and "processAttestation cr s nonce i a chc acc = (chc', acc')"
  shows "toNonces acc' = toNonces acc"
    and "fromNonces acc' = fromNonces acc"
    and "hashChainStarter acc' = hashChainStarter acc"
    and "blindedUserState acc' = blindedUserState acc"
  using assms by (auto simp: processAttestation_def Let_def)

lemma processAttestation_common:
  assumes "processAttestation cr s nonce i a chc acc = (chc', acc')"
  shows "chc' = hashLeftRight cr (attestationHash cr a) chc"
    and "\<exists>r. intermediateUserStateTreeRoots acc' = intermediateUserStateTreeRoots acc @ [r] \<and>
             r = smtRoot cr (fromEpochUserStateTree acc')"
    and "\<exists>e. entries acc' = entries acc @ [e] \<and> e_selector e = 1"
    and "blindedHashChain acc' = blindedHashChain acc"
    and "finalHashChain acc' = finalHashChain acc"
    and "epochKeyPathElements acc' = epochKeyPathElements acc"
  using assms by (auto simp: processAttestation_def Let_def)

lemma batchBoundary_openCount:
  assumes "0 < N"
  shows "batchBoundary N i \<longleftrightarrow> openCount N i = N"
proof (cases i)
  case 0
  with assms show ?thesis by (simp add: batchBoundary_def openCount_def)
next
  case (Suc m)
  have "Suc m mod N = 0 \<longleftrightarrow> Suc (m mod N) = N"
    by (simp add: mod_Suc)
  moreover have "Suc m mod N = 0 \<Longrightarrow> int (Suc m) \<noteq> int N - 1"
  proof -
    assume "Suc m mod N = 0"
    then have "N dvd Suc m" by (simp add: dvd_eq_mod_eq_0)
    then have "N \<le> Suc m" by (rule dvd_imp_le) simp
    then show ?thesis by simp
  qed
  ultimately show ?thesis using Suc
    by (auto simp: batchBoundary_def openCount_def)
qed

lemma openCount_Suc:
  assumes "0 < N"
  shows "openCount N (Suc i) = (if openCount N i = N then 1 else openCount N i + 1)"
proof (cases i)
  case 0
  with assms show ?thesis by (simp add: openCount_def)
next
  case (Suc m)
  then show ?thesis by (simp add: openCount_def mod_Suc)
qed

lemma openCount_le: "0 < N \<Longrightarrow> openCount N i \<le> N"
  by (simp add: openCount_def Suc_leI)

lemma openCount_fill:
  assumes "0 < N"
  shows "openCount N len + (filledAttestationNum N len - len) = N"
proof (cases len)
  case 0
  then show ?thesis by (simp add: openCount_def filledAttestationNum_def)
next
  case (Suc m)
  define q where "q = m div N * N"
  define r where "r = m mod N"
  have d: "(m + N) div N = m div N + 1"
    using assms div_add_self2 [of N m] by simp
  have m: "m = q + r" by (simp add: q_def r_def)
  have lt: "r < N" using assms by (simp add: r_def)
  have "filledAttestationNum N (Suc m) = q + N"
    by (simp add: filledAttestationNum_def d q_def)
  then have "filledAttestationNum N (Suc m) - Suc m = N - (r + 1)"
    using m lt by arith
  with lt Suc show ?thesis by (simp add: openCount_def r_def)
qed

lemma chainOpen_extend:
  assumes inv: "chainOpen cr s b0 j acc" and j: "j < NUM_ATTESTATIONS_PER_PROOF cr"
    and f: "toNonces acc' = toNonces acc" "fromNonces acc' = fromNonces acc"
      "blindedUserState acc' = blindedUserState acc"
      "intermediateUserStateTreeRoots acc' =
         intermediateUserStateTreeRoots acc @ [smtRoot cr (fromEpochUserStateTree acc')]"
      "entries acc' = entries acc @ [e]"
  shows "chainOpen cr s b0 (Suc j) acc'"
proof -
  define N where "N = NUM_ATTESTATIONS_PER_PROOF cr"
  from inv obtain t where T: "length (toNonces acc) = Suc t"
    by (cases "toNonces acc") (auto simp: chainOpen_def)
  from inv T have len: "length (intermediateUserStateTreeRoots acc) = N * t + 1 + j"
    by (simp add: chainOpen_def N_def)
  have idx: "N * (k + 1) < length (intermediateUserStateTreeRoots acc)" if "k + 1 < Suc t" for k
  proof -
    from that have "k + 1 \<le> t" by simp
    then have "N * (k + 1) \<le> N * t" by (rule mult_le_mono2)
    with len show ?thesis by simp
  qed
  have "\<forall>k. k + 1 < length (toNonces acc') \<longrightarrow>
        blindedUserState acc' ! (k + 1) =
          hash5 cr [identityNullifier s,
                    intermediateUserStateTreeRoots acc' ! (N * (k + 1)),
                    latestTransitionedEpoch s, toNonces acc' ! k]"
  proof (intro allI impI)
    fix k assume "k + 1 < length (toNonces acc')"
    with f T have k: "k + 1 < Suc t" by simp
    with inv T have "blindedUserState acc ! (k + 1) =
          hash5 cr [identityNullifier s,
                    intermediateUserStateTreeRoots acc ! (N * (k + 1)),
                    latestTransitionedEpoch s, toNonces acc ! k]"
      by (simp add: chainOpen_def N_def)
    with idx [OF k] f show "blindedUserState acc' ! (k + 1) =
          hash5 cr [identityNullifier s,
                    intermediateUserStateTreeRoots acc' ! (N * (k + 1)),
                    latestTransitionedEpoch s, toNonces acc' ! k]"
      by (simp add: nth_append)
  qed
  with inv j f T show ?thesis
    by (simp add: chainOpen_def N_def)
qed

lemma chainOpen_cross:
  assumes inv: "chainOpen cr s b0 (NUM_ATTESTATIONS_PER_PROOF cr) acc"
    and pos: "0 < NUM_ATTESTATIONS_PER_PROOF cr"
    and lst: "last (toNonces acc) = nonce"
    and f: "toNonces acc' = toNonces acc @ [nonce]"
      "fromNonces acc' = fromNonces acc @ [nonce]"
      "blindedUserState acc' = blindedUserState acc @
         [hash5 cr [identityNullifier s, smtRoot cr (fromEpochUserStateTree acc),
                    latestTransitionedEpoch s, nonce]]"
      "intermediateUserStateTreeRoots acc' =
         intermediateUserStateTreeRoots acc @ [smtRoot cr (fromEpochUserStateTree acc')]"
      "entries acc' = entries acc @ [e]"
  shows "chainOpen cr s b0 1 acc'"
proof -
  define N where "N = NUM_ATTESTATIONS_PER_PROOF cr"
  from inv obtain t where T: "length (toNonces acc) = Suc t"
    by (cases "toNonces acc") (auto simp: chainOpen_def)
  from inv T have len: "length (intermediateUserStateTreeRoots acc) = N * Suc t + 1"
    by (simp add: chainOpen_def N_def)
  from inv T have lenb: "length (blindedUserState acc) = Suc t"
    by (simp add: chainOpen_def)
  from inv have lastr: "last (intermediateUserStateTreeRoots acc)
      = smtRoot cr (fromEpochUserStateTree acc)"
    by (simp add: chainOpen_def)
  from len have rne: "intermediateUserStateTreeRoots acc \<noteq> []" by auto
  have top: "intermediateUserStateTreeRoots acc ! (N * Suc t)
      = smtRoot cr (fromEpochUserStateTree acc)"
    using lastr len rne by (simp add: last_conv_nth)
  from T have tne: "toNonces acc \<noteq> []" by auto
  have topn: "toNonces acc ! t = nonce"
    using lst T tne by (simp add: last_conv_nth)
  have idx: "N * (k + 1) < length (intermediateUserStateTreeRoots acc)" if "k + 1 \<le> Suc t" for k
  proof -
    from that have "N * (k + 1) \<le> N * Suc t" by (rule mult_le_mono2)
    with len show ?thesis by linarith
  qed
  have "\<forall>k. k + 1 < length (toNonces acc') \<longrightarrow>
        blindedUserState acc' ! (k + 1) =
          hash5 cr [identityNullifier s,
                    intermediateUserStateTreeRoots acc' ! (N * (k + 1)),
                    latestTransitionedEpoch s, toNonces acc' ! k]"
  proof (intro allI impI)
    fix k assume "k + 1 < length (toNonces acc')"
    with f T have k: "k + 1 \<le> Suc t" by simp
    show "blindedUserState acc' ! (k + 1) =
          hash5 cr [identityNullifier s,
                    intermediateUserStateTreeRoots acc' ! (N * (k + 1)),
                    latestTransitionedEpoch s, toNonces acc' ! k]"
    proof (cases "k + 1 < Suc t")
      case True
      with inv T have "blindedUserState acc ! (k + 1) =
          hash5 cr [identityNullifier s,
                    intermediateUserStateTreeRoots acc ! (N * (k + 1)),
                    latestTransitionedEpoch s, toNonces acc ! k]"
        by (simp add: chainOpen_def N_def)
      with idx [OF k] f True T lenb show ?thesis
        by (simp add: nth_append)
    next
      case False
      with k have kt: "k = t" by simp
      with idx [OF k] f T lenb top topn show ?thesis
        by (simp add: nth_append)
    qed
  qed
  moreover from inv have "length (fromNonces acc) \<le> length (toNonces acc)"
    and "blindedUserState acc ! 0 = b0"
    and "length (entries acc) = N * (length (toNonces acc) - 1) + N"
    by (simp_all add: chainOpen_def N_def)
  ultimately show ?thesis using pos f T len lenb
    by (simp add: chainOpen_def N_def nth_append)
qed

lemma chainClosed_open:
  assumes inv: "chainClosed cr s b0 acc"
    and f: "toNonces acc' = toNonces acc @ [nonce]" "fromNonces acc' = fromNonces acc"
      "blindedUserState acc' = blindedUserState acc"
      "intermediateUserStateTreeRoots acc' = intermediateUserStateTreeRoots acc"
      "entries acc' = entries acc"
      "fromEpochUserStateTree acc' = fromEpochUserStateTree acc"
  shows "chainOpen cr s b0 0 acc'"
proof -
  have "\<forall>k. k + 1 < length (toNonces acc') \<longrightarrow>
        blindedUserState acc' ! (k + 1) =
          hash5 cr [identityNullifier s,
                    intermediateUserStateTreeRoots acc' !
                      (NUM_ATTESTATIONS_PER_PROOF cr * (k + 1)),
                    latestTransitionedEpoch s, toNonces acc' ! k]"
    using inv f by (simp add: chainClosed_def nth_append)
  with inv f show ?thesis
    by (simp add: chainClosed_def chainOpen_def)
qed

lemma chainOpen_close:
  assumes inv: "chainOpen cr s b0 (NUM_ATTESTATIONS_PER_PROOF cr) acc"
    and lst: "last (toNonces acc) = nonce"
    and f: "toNonces acc' = toNonces acc"
      "length (fromNonces acc') \<le> length (fromNonces acc) + 1"
      "blindedUserState acc' = blindedUserState acc @
         [hash5 cr [identityNullifier s, smtRoot cr (fromEpochUserStateTree acc),
                    latestTransitionedEpoch s, nonce]]"
      "intermediateUserStateTreeRoots acc' = intermediateUserStateTreeRoots acc"
      "entries acc' = entries acc"
      "fromEpochUserStateTree acc' = fromEpochUserStateTree acc"
  shows "chainClosed cr s b0 acc'"
proof -
  define N where "N = NUM_ATTESTATIONS_PER_PROOF cr"
  from inv obtain t where T: "length (toNonces acc) = Suc t"
    by (cases "toNonces acc") (auto simp: chainOpen_def)
  from inv T have len: "length (intermediateUserStateTreeRoots acc) = N * Suc t + 1"
    by (simp add: chainOpen_def N_def)
  from inv T have lenb: "length (blindedUserState acc) = Suc t"
    by (simp add: chainOpen_def)
  from inv have lastr: "last (intermediateUserStateTreeRoots acc)
      = smtRoot cr (fromEpochUserStateTree acc)"
    by (simp add: chainOpen_def)
  from len have rne: "intermediateUserStateTreeRoots acc \<noteq> []" by auto
  have top: "intermediateUserStateTreeRoots acc ! (N * Suc t)
      = smtRoot cr (fromEpochUserStateTree acc)"
    using lastr len rne by (simp add: last_conv_nth)
  from T have tne: "toNonces acc \<noteq> []" by auto
  have topn: "toNonces acc ! t = nonce"
    using lst T tne by (simp add: last_conv_nth)
  have "\<forall>k. k < length (toNonces acc') \<longrightarrow>
        blindedUserState acc' ! (k + 1) =
          hash5 cr [identityNullifier s,
                    intermediateUserStateTreeRoots acc' ! (N * (k + 1)),
                    latestTransitionedEpoch s, toNonces acc' ! k]"
  proof (intro allI impI)
    fix k assume "k < length (toNonces acc')"
    with f T have k: "k < Suc t" by simp
    show "blindedUserState acc' ! (k + 1) =
          hash5 cr [identityNullifier s,
                    intermediateUserStateTreeRoots acc' ! (N * (k + 1)),
                    latestTransitionedEpoch s, toNonces acc' ! k]"
    proof (cases "k + 1 < Suc t")
      case True
      with inv T have "blindedUserState acc ! (k + 1) =
          hash5 cr [identityNullifier s,
                    intermediateUserStateTreeRoots acc ! (N * (k + 1)),
                    latestTransitionedEpoch s, toNonces acc ! k]"
        by (simp add: chainOpen_def N_def)
      with f True T lenb show ?thesis
        by (simp add: nth_append)
    next
      case False
      with k have kt: "k = t" by simp
      with f T lenb top topn show ?thesis
        by (simp add: nth_append)
    qed
  qed
  moreover from inv have "length (fromNonces acc) \<le> length (toNonces acc)"
    and "blindedUserState acc ! 0 = b0"
    and "length (entries acc) = N * (length (toNonces acc) - 1) + N"
    by (simp_all add: chainOpen_def N_def)
  ultimately show ?thesis using f T len lenb lastr
    by (simp add: chainClosed_def N_def nth_append)
qed

lemma processAttestation_last_toNonces:
  assumes "toNonces acc \<noteq> []" "last (toNonces acc) = nonce"
    and "processAttestation cr s nonce i a chc acc = (chc', acc')"
  shows "last (toNonces acc') = nonce"
  using assms by (auto simp: processAttestation_def Let_def)

lemma processAttestation_chainOpen:
  assumes pos: "0 < NUM_ATTESTATIONS_PER_PROOF cr"
    and inv: "chainOpen cr s b0 (openCount (NUM_ATTESTATIONS_PER_PROOF cr) i) acc"
    and lst: "last (toNonces acc) = nonce"
    and step: "processAttestation cr s nonce i a chc acc = (chc', acc')"
  shows "chainOpen cr s b0 (openCount (NUM_ATTESTATIONS_PER_PROOF cr) (Suc i)) acc'"
proof -
  from processAttestation_common(2) [OF step] have r:
    "intermediateUserStateTreeRoots acc' =
       intermediateUserStateTreeRoots acc @ [smtRoot cr (fromEpochUserStateTree acc')]"
    by auto
  from processAttestation_common(3) [OF step] obtain e where e:
    "entries acc' = entries acc @ [e]" by auto
  show ?thesis
  proof (cases "batchBoundary (NUM_ATTESTATIONS_PER_PROOF cr) i")
    case True
    with batchBoundary_openCount [OF pos, of i]
    have full: "openCount (NUM_ATTESTATIONS_PER_PROOF cr) i = NUM_ATTESTATIONS_PER_PROOF cr"
      by simp
    note b = processAttestation_boundary [OF True step]
    from inv full have "chainOpen cr s b0 (NUM_ATTESTATIONS_PER_PROOF cr) acc" by simp
    from chainOpen_cross [OF this pos lst b(1) b(2) b(4) r e]
    show ?thesis using full by (simp add: openCount_Suc [OF pos])
  next
    case False
    with batchBoundary_openCount [OF pos, of i]
    have nf: "openCount (NUM_ATTESTATIONS_PER_PROOF cr) i \<noteq> NUM_ATTESTATIONS_PER_PROOF cr"
      by simp
    with openCount_le [OF pos, of i]
    have lt: "openCount (NUM_ATTESTATIONS_PER_PROOF cr) i < NUM_ATTESTATIONS_PER_PROOF cr"
      by simp
    note b = processAttestation_inside [OF False step]
    from chainOpen_extend [OF inv lt b(1) b(2) b(4) r e]
    show ?thesis using nf by (simp add: openCount_Suc [OF pos])
  qed
qed

lemma processAttestationsLoop_chainOpen:
  assumes pos: "0 < NUM_ATTESTATIONS_PER_PROOF cr"
  shows "chainOpen cr s b0 (openCount (NUM_ATTESTATIONS_PER_PROOF cr) i) acc \<Longrightarrow>
    last (toNonces acc) = nonce \<Longrightarrow>
    processAttestationsLoop cr s nonce i atts chc acc = (chc', acc') \<Longrightarrow>
    chainOpen cr s b0 (openCount (NUM_ATTESTATIONS_PER_PROOF cr) (i + length atts)) acc' \<and>
    last (toNonces acc') = nonce"
proof (induction atts arbitrary: i chc acc)
  case Nil
  then show ?case by simp
next
  case (Cons a atts)
  obtain c1 a1 where step: "processAttestation cr s nonce i a chc acc = (c1, a1)"
    by (cases "processAttestation cr s nonce i a chc acc")
  with Cons.prems(3) have rest:
    "processAttestationsLoop cr s nonce (Suc i) atts c1 a1 = (chc', acc')" by simp
  from Cons.prems(1) have ne: "toNonces acc \<noteq> []" by (simp add: chainOpen_def)
  note inv1 = processAttestation_chainOpen [OF pos Cons.prems(1) Cons.prems(2) step]
  note lst1 = processAttestation_last_toNonces [OF ne Cons.prems(2) step]
  from Cons.IH [OF inv1 lst1 rest] show ?case by simp
qed

lemma padLoop_fields:
  "entries (padLoop cr n acc) =
     entries acc @ replicate n (paddingEntry cr (fromEpochUserStateTree acc))"
  "intermediateUserStateTreeRoots (padLoop cr n acc) =
     intermediateUserStateTreeRoots acc @ replicate n (smtRoot cr (fromEpochUserStateTree acc))"
  "fromEpochUserStateTree (padLoop cr n acc) = fromEpochUserStateTree acc"
  "toNonces (padLoop cr n acc) = toNonces acc"
  "fromNonces (padLoop cr n acc) = fromNonces acc"
  "hashChainStarter (padLoop cr n acc) = hashChainStarter acc"
  "blindedUserState (padLoop cr n acc) = blindedUserState acc"
  "blindedHashChain (padLoop cr n acc) = blindedHashChain acc"
  "finalHashChain (padLoop cr n acc) = finalHashChain acc"
  "epochKeyPathElements (padLoop cr n acc) = epochKeyPathElements acc"
  "reputationRecords (padLoop cr n acc) = reputationRecords acc"
  by (induction n arbitrary: acc; simp add: replicate_app_Cons_same)+

lemma padLoop_chainOpen:
  "chainOpen cr s b0 j acc \<Longrightarrow> j + n \<le> NUM_ATTESTATIONS_PER_PROOF cr \<Longrightarrow>
   chainOpen cr s b0 (j + n) (padLoop cr n acc)"
proof (induction n arbitrary: j acc)
  case 0
  then show ?case by simp
next
  case (Suc n)
  let ?a = "acc\<lparr>entries := entries acc @ [paddingEntry cr (fromEpochUserStateTree acc)],
            intermediateUserStateTreeRoots := intermediateUserStateTreeRoots acc @
              [smtRoot cr (fromEpochUserStateTree acc)]\<rparr>"
  from Suc.prems have lt: "j < NUM_ATTESTATIONS_PER_PROOF cr" by simp
  have "chainOpen cr s b0 (Suc j) ?a"
    by (rule chainOpen_extend [OF Suc.prems(1) lt]) simp_all
  from Suc.IH [OF this] Suc.prems(2) show ?case by simp
qed

lemma nonceBody_chainClosed:
  assumes pos: "0 < NUM_ATTESTATIONS_PER_PROOF cr"
    and inv: "chainClosed cr s b0 acc"
  shows "chainClosed cr s b0 (nonceBody cr sync s fromEpochTree nonce epochKey attestations acc)"
proof -
  define N where "N = NUM_ATTESTATIONS_PER_PROOF cr"
  define acc1 where "acc1 = acc\<lparr>toNonces := toNonces acc @ [int nonce],
                     hashChainStarter := hashChainStarter acc @ [0]\<rparr>"
  obtain chc acc2 where loop:
    "processAttestationsLoop cr s (int nonce) 0 attestations 0 acc1 = (chc, acc2)"
    by (cases "processAttestationsLoop cr s (int nonce) 0 attestations 0 acc1")
  define acc3 where "acc3 = padLoop cr (filledAttestationNum N (length attestations)
                   - length attestations) acc2"
  have o1: "chainOpen cr s b0 (openCount N 0) acc1"
    unfolding openCount_def
    by (simp, rule chainClosed_open [OF inv, of _ "int nonce"]) (simp_all add: acc1_def)
  have l1: "last (toNonces acc1) = int nonce" by (simp add: acc1_def)
  from processAttestationsLoop_chainOpen [OF pos o1 [unfolded N_def] l1 loop]
  have o2: "chainOpen cr s b0 (openCount N (length attestations)) acc2"
    and l2: "last (toNonces acc2) = int nonce" by (simp_all add: N_def)
  have o3: "chainOpen cr s b0 N acc3"
    using padLoop_chainOpen [OF o2, of "filledAttestationNum N (length attestations)
                   - length attestations"] openCount_fill [of N "length attestations"] pos
    by (simp add: acc3_def N_def)
  have l3: "last (toNonces acc3) = int nonce"
    using l2 by (simp add: acc3_def padLoop_fields)
  have eq: "nonceBody cr sync s fromEpochTree nonce epochKey attestations acc =
      acc3\<lparr>epochKeyPathElements :=
                    epochKeyPathElements acc3 @ [et_createProof fromEpochTree epochKey],
                  finalHashChain := finalHashChain acc3 @ [chc],
                  blindedUserState := blindedUserState acc3 @
                    [hash5 cr [identityNullifier s, smtRoot cr (fromEpochUserStateTree acc3),
                               latestTransitionedEpoch s, int nonce]],
                  blindedHashChain := blindedHashChain acc3 @
                    [hash5 cr [identityNullifier s, chc,
                               latestTransitionedEpoch s, int nonce]],
                  fromNonces :=
                    (if int nonce \<noteq> int (numEpochKeyNoncePerEpoch sync) - 1
                     then fromNonces acc3 @ [int nonce] else fromNonces acc3)\<rparr>"
    using loop by (simp add: nonceBody_def acc1_def acc3_def N_def Let_def)
  show ?thesis
    unfolding eq
    by (rule chainOpen_close [OF o3 [unfolded N_def] l3]) simp_all
qed

lemma nonceLoop_chainClosed:
  assumes pos: "0 < NUM_ATTESTATIONS_PER_PROOF cr"
  shows "chainClosed cr s b0 acc \<Longrightarrow>
    nonceLoop cr sync s fromEpochTree nonces acc = Inr acc' \<Longrightarrow>
    chainClosed cr s b0 acc'"
proof (induction nonces arbitrary: acc)
  case Nil
  then show ?case by simp
next
  case (Cons nonce nonces)
  from Cons.prems(2) obtain attestations where
    g: "getAttestations sync (genEpochKey cr (identityNullifier s) (latestTransitionedEpoch s)
                       (int nonce) (Some (epochTreeDepth sync))) = Some attestations"
    and rest: "nonceLoop cr sync s fromEpochTree nonces
       (nonceBody cr sync s fromEpochTree nonce
          (genEpochKey cr (identityNullifier s) (latestTransitionedEpoch s)
                       (int nonce) (Some (epochTreeDepth sync))) attestations acc) = Inr acc'"
    by (auto simp: Let_def split: option.splits)
  from Cons.IH [OF nonceBody_chainClosed [OF pos Cons.prems(1)] rest] show ?case .
qed

lemma initialAcc_chainClosed:
  "chainClosed cr s (start_blindedUserState start) (initialAcc cr s start)"
  by (simp add: chainClosed_def initialAcc_def)

lemma last_slice:
  assumes "a + n < length xs"
  shows "last (slice xs a (a + n + 1)) = xs ! (a + n)"
proof -
  have len: "length (take (Suc n) (drop a xs)) = Suc n"
    using assms by simp
  then have ne: "take (Suc n) (drop a xs) \<noteq> []" by auto
  have "last (take (Suc n) (drop a xs)) = take (Suc n) (drop a xs) ! n"
    using len ne by (simp add: last_conv_nth)
  also have "\<dots> = xs ! (a + n)"
    using assms by simp
  finally show ?thesis by (simp add: slice_def)
qed

lemma genUserStateTransitionProofs_acc:
  assumes "genUserStateTransitionProofs cr sync s = Inr out"
  shows "\<exists>fromEpochTree acc.
     nonceLoop cr sync s fromEpochTree [0..<numEpochKeyNoncePerEpoch sync]
       (initialAcc cr s (startTransitionCircuitInputs out)) = Inr acc \<and>
     processAttestationCircuitInputs out =
       map (processAttestationCircuitInput cr s acc) [0..<length (fromNonces acc)] \<and>
     start_blindedUserState (startTransitionCircuitInputs out) =
       hash5 cr [identityNullifier s, smtRoot cr (genUserStateTree cr s),
                 latestTransitionedEpoch s, 0, 0]"
proof -
  from assms have su: "hasSignedUp s"
    by (simp add: genUserStateTransitionProofs_def split: if_splits)
  from assms su obtain G where G: "genGSTree sync (latestTransitionedEpoch s) = Some G"
    by (cases "genGSTree sync (latestTransitionedEpoch s)")
       (simp_all add: genUserStateTransitionProofs_def Let_def)
  from assms su G obtain P where P: "imt_createProof G (latestGSTLeafIndex s) = Some P"
    by (cases "imt_createProof G (latestGSTLeafIndex s)")
       (simp_all add: genUserStateTransitionProofs_def Let_def)
  from assms su G P obtain E where E: "genEpochTree sync (latestTransitionedEpoch s) = Some E"
    by (cases "genEpochTree sync (latestTransitionedEpoch s)")
       (simp_all add: genUserStateTransitionProofs_def Let_def)
  define start where "start = genStartTransitionCircuitInputs cr s 0
      (smtRoot cr (genUserStateTree cr s)) P (imt_root G)"
  from assms su G P E obtain acc where
    acc: "nonceLoop cr sync s E [0..<numEpochKeyNoncePerEpoch sync] (initialAcc cr s start)
            = Inr acc"
    by (cases "nonceLoop cr sync s E [0..<numEpochKeyNoncePerEpoch sync]
                 (initialAcc cr s start)")
       (simp_all add: genUserStateTransitionProofs_def Let_def start_def)
  from assms su G P E acc have o: "startTransitionCircuitInputs out = start"
    "processAttestationCircuitInputs out =
       map (processAttestationCircuitInput cr s acc) [0..<length (fromNonces acc)]"
    by (auto simp: genUserStateTransitionProofs_def Let_def start_def)
  have "start_blindedUserState start =
       hash5 cr [identityNullifier s, smtRoot cr (genUserStateTree cr s),
                 latestTransitionedEpoch s, 0, 0]"
    by (simp add: start_def genStartTransitionCircuitInputs_def)
  with o acc show ?thesis by auto
qed

text \<open>
  C2.  Let the batch size be positive and let \<open>hash5\<close> pad its argument with zeros (four
  elements hash as the same four followed by 0).  In the inputs \<open>genUserStateTransitionProofs\<close>
  assembles, the \<open>input_blinded_user_state\<close> of the process-attestations batch \<open>i\<close> is, for
  \<open>i = 0\<close>, the blinded user state of the start phase, which is
  \<open>hash5(identityNullifier, userStateTreeRoot, fromEpoch, 0, 0)\<close>, and for \<open>i > 0\<close> the
  blinded user state batch \<open>i - 1\<close> outputs: the hash of the identity nullifier, the last
  intermediate root of that batch, the epoch and the \<open>to_nonce\<close> of that batch.
\<close>

theorem genUserStateTransitionProofs_chain:
  assumes pos: "0 < NUM_ATTESTATIONS_PER_PROOF cr"
    and pad: "\<And>a b c d. hash5 cr [a, b, c, d] = hash5 cr [a, b, c, d, 0]"
    and run: "genUserStateTransitionProofs cr sync s = Inr out"
    and i: "i < length (processAttestationCircuitInputs out)"
  shows "pa_input_blinded_user_state (processAttestationCircuitInputs out ! i) =
     (if i = 0 then Some (start_blindedUserState (startTransitionCircuitInputs out))
      else outputBlindedUserState cr (processAttestationCircuitInputs out ! (i - 1)))
    \<and> start_blindedUserState (startTransitionCircuitInputs out) =
       hash5 cr [identityNullifier s, smtRoot cr (genUserStateTree cr s),
                 latestTransitionedEpoch s, 0, 0]"
proof -
  define N where "N = NUM_ATTESTATIONS_PER_PROOF cr"
  define b0 where "b0 = start_blindedUserState (startTransitionCircuitInputs out)"
  from genUserStateTransitionProofs_acc [OF run] obtain fromEpochTree acc where
    loop: "nonceLoop cr sync s fromEpochTree [0..<numEpochKeyNoncePerEpoch sync]
       (initialAcc cr s (startTransitionCircuitInputs out)) = Inr acc"
    and batches: "processAttestationCircuitInputs out =
       map (processAttestationCircuitInput cr s acc) [0..<length (fromNonces acc)]"
    and st: "start_blindedUserState (startTransitionCircuitInputs out) =
       hash5 cr [identityNullifier s, smtRoot cr (genUserStateTree cr s),
                 latestTransitionedEpoch s, 0, 0]"
    by blast
  have closed: "chainClosed cr s b0 acc"
    unfolding b0_def
    by (rule nonceLoop_chainClosed [OF pos initialAcc_chainClosed loop])
  from i batches have il: "i < length (fromNonces acc)" by simp
  from closed have lb: "length (blindedUserState acc) = length (toNonces acc) + 1"
    and lf: "length (fromNonces acc) \<le> length (toNonces acc) + 1"
    and lr: "length (intermediateUserStateTreeRoots acc) = N * length (toNonces acc) + 1"
    and z: "blindedUserState acc ! 0 = b0"
    by (simp_all add: chainClosed_def N_def)
  from il lf lb have ib: "i < length (blindedUserState acc)" by simp
  have inp: "pa_input_blinded_user_state (processAttestationCircuitInputs out ! i) =
      Some (blindedUserState acc ! i)"
    using il ib batches by (simp add: processAttestationCircuitInput_def js_nth_def Let_def)
  show ?thesis
  proof (cases "i = 0")
    case True
    with inp z st show ?thesis by (simp add: b0_def)
  next
    case False
    then obtain k where k: "i = Suc k" by (cases i) auto
    with il lf have kt: "k < length (toNonces acc)" by simp
    with closed have h: "blindedUserState acc ! (k + 1) =
          hash5 cr [identityNullifier s, intermediateUserStateTreeRoots acc ! (N * (k + 1)),
                    latestTransitionedEpoch s, toNonces acc ! k]"
      by (simp add: chainClosed_def N_def)
    from kt have "N * (k + 1) \<le> N * length (toNonces acc)"
      by (intro mult_le_mono2) simp
    with lr have bound: "N * k + N < length (intermediateUserStateTreeRoots acc)"
      by simp
    have lastr: "last (slice (intermediateUserStateTreeRoots acc) (N * k) (N * (k + 1) + 1))
        = intermediateUserStateTreeRoots acc ! (N * (k + 1))"
      using last_slice [OF bound] by (simp add: add.commute)
    from k il have kl: "k < length (fromNonces acc)" by simp
    have outp: "outputBlindedUserState cr (processAttestationCircuitInputs out ! k) =
        Some (hash5 cr [identityNullifier s,
                        intermediateUserStateTreeRoots acc ! (N * (k + 1)),
                        latestTransitionedEpoch s, toNonces acc ! k, 0])"
      using kl kt batches lastr
      by (simp add: outputBlindedUserState_def processAttestationCircuitInput_def js_nth_def
          Let_def N_def)
    from inp h outp k st show ?thesis
      by (simp add: pad)
  qed
qed

theorem genUserStateTransitionProofs_chain_witness:
  "0 < NUM_ATTESTATIONS_PER_PROOF sampleCrypto \<and>
   (\<forall>a b c d. hash5 sampleCrypto [a, b, c, d] = hash5 sampleCrypto [a, b, c, d, 0]) \<and>
   \<not> isl (genUserStateTransitionProofs sampleCrypto attestedSync signedUpState) \<and>
   1 < length (processAttestationCircuitInputs
         (projr (genUserStateTransitionProofs sampleCrypto attestedSync signedUpState))) \<and>
   pa_input_blinded_user_state (processAttestationCircuitInputs
         (projr (genUserStateTransitionProofs sampleCrypto attestedSync signedUpState)) ! 1) =
     outputBlindedUserState sampleCrypto (processAttestationCircuitInputs
         (projr (genUserStateTransitionProofs sampleCrypto attestedSync signedUpState)) ! 0) \<and>
   pa_input_blinded_user_state (processAttestationCircuitInputs
         (projr (genUserStateTransitionProofs sampleCrypto attestedSync signedUpState)) ! 1) =
     Some 33 \<and>
   pa_input_blinded_user_state (processAttestationCircuitInputs
         (projr (genUserStateTransitionProofs sampleCrypto attestedSync signedUpState)) ! 0) =
     Some (start_blindedUserState (startTransitionCircuitInputs
         (projr (genUserStateTransitionProofs sampleCrypto attestedSync signedUpState))))"
proof -
  have pos: "0 < NUM_ATTESTATIONS_PER_PROOF sampleCrypto"
    by (simp add: sampleCrypto_def)
  have pad: "\<And>a b c d. hash5 sampleCrypto [a, b, c, d] = hash5 sampleCrypto [a, b, c, d, 0]"
    by (simp add: sampleCrypto_def)
  have ok: "\<not> isl (genUserStateTransitionProofs sampleCrypto attestedSync signedUpState)"
    by code_simp
  then obtain out where
    run: "genUserStateTransitionProofs sampleCrypto attestedSync signedUpState = Inr out"
    by (cases "genUserStateTransitionProofs sampleCrypto attestedSync signedUpState") auto
  have len: "1 < length (processAttestationCircuitInputs
         (projr (genUserStateTransitionProofs sampleCrypto attestedSync signedUpState)))"
    by code_simp
  have val: "pa_input_blinded_user_state (processAttestationCircuitInputs
         (projr (genUserStateTransitionProofs sampleCrypto attestedSync signedUpState)) ! 1) =
     Some 33"
    by code_simp
  from len run have i: "1 < length (processAttestationCircuitInputs out)" by simp
  then have i0: "0 < length (processAttestationCircuitInputs out)" by linarith
  from genUserStateTransitionProofs_chain [OF pos pad run i]
    genUserStateTransitionProofs_chain [OF pos pad run i0] pos pad ok len val run
  show ?thesis by simp
qed

lemma processAttestation_tree_root:
  assumes "processAttestation cr s nonce i a chc acc = (chc', acc')"
  shows "last (intermediateUserStateTreeRoots acc') = smtRoot cr (fromEpochUserStateTree acc')"
  using processAttestation_common(2) [OF assms] by auto

lemma processAttestationsLoop_fields:
  "processAttestationsLoop cr s nonce i atts chc acc = (chc', acc') \<Longrightarrow>
   chc' = foldl (\<lambda>h a. hashLeftRight cr (attestationHash cr a) h) chc atts \<and>
   finalHashChain acc' = finalHashChain acc \<and>
   blindedHashChain acc' = blindedHashChain acc \<and>
   epochKeyPathElements acc' = epochKeyPathElements acc \<and>
   (atts = [] \<longrightarrow> fromEpochUserStateTree acc' = fromEpochUserStateTree acc) \<and>
   (\<exists>real realRoots. length real = length atts \<and> length realRoots = length atts \<and>
      (\<forall>e \<in> set real. e_selector e = 1) \<and>
      entries acc' = entries acc @ real \<and>
      intermediateUserStateTreeRoots acc' = intermediateUserStateTreeRoots acc @ realRoots \<and>
      (realRoots \<noteq> [] \<longrightarrow> last realRoots = smtRoot cr (fromEpochUserStateTree acc')))"
proof (induction atts arbitrary: i chc acc)
  case Nil
  then show ?case by simp
next
  case (Cons a atts)
  obtain c1 a1 where step: "processAttestation cr s nonce i a chc acc = (c1, a1)"
    by (cases "processAttestation cr s nonce i a chc acc")
  with Cons.prems have rest:
    "processAttestationsLoop cr s nonce (Suc i) atts c1 a1 = (chc', acc')" by simp
  note c = processAttestation_common [OF step]
  from c(2) obtain r where r:
    "intermediateUserStateTreeRoots a1 = intermediateUserStateTreeRoots acc @ [r]"
    "r = smtRoot cr (fromEpochUserStateTree a1)" by auto
  from c(3) obtain e where e: "entries a1 = entries acc @ [e]" "e_selector e = 1" by auto
  from Cons.IH [OF rest] obtain real realRoots where ih:
    "chc' = foldl (\<lambda>h a. hashLeftRight cr (attestationHash cr a) h) c1 atts"
    "finalHashChain acc' = finalHashChain a1"
    "blindedHashChain acc' = blindedHashChain a1"
    "epochKeyPathElements acc' = epochKeyPathElements a1"
    "atts = [] \<longrightarrow> fromEpochUserStateTree acc' = fromEpochUserStateTree a1"
    "length real = length atts" "length realRoots = length atts"
    "\<forall>e \<in> set real. e_selector e = 1"
    "entries acc' = entries a1 @ real"
    "intermediateUserStateTreeRoots acc' = intermediateUserStateTreeRoots a1 @ realRoots"
    "realRoots \<noteq> [] \<longrightarrow> last realRoots = smtRoot cr (fromEpochUserStateTree acc')"
    by blast
  have lastr: "last (r # realRoots) = smtRoot cr (fromEpochUserStateTree acc')"
  proof (cases "realRoots = []")
    case True
    with ih(7) have "atts = []" by simp
    with ih(5) r(2) True show ?thesis by simp
  next
    case False
    with ih(11) show ?thesis by simp
  qed
  have ex: "\<exists>real' realRoots'. length real' = length (a # atts) \<and>
      length realRoots' = length (a # atts) \<and>
      (\<forall>e \<in> set real'. e_selector e = 1) \<and>
      entries acc' = entries acc @ real' \<and>
      intermediateUserStateTreeRoots acc' = intermediateUserStateTreeRoots acc @ realRoots' \<and>
      (realRoots' \<noteq> [] \<longrightarrow> last realRoots' = smtRoot cr (fromEpochUserStateTree acc'))"
    apply (rule exI [of _ "e # real"])
    apply (rule exI [of _ "r # realRoots"])
    using ih(6-10) e r(1) lastr by simp
  from c(1) c(4) c(5) c(6) ih(1-4) ex show ?case by simp
qed

lemma filledAttestationNum_bounds:
  assumes "0 < N"
  shows "len \<le> filledAttestationNum N len" "N dvd filledAttestationNum N len"
    "0 < filledAttestationNum N len" "filledAttestationNum N len \<le> len + N"
    "0 < len \<Longrightarrow> filledAttestationNum N len < len + N"
proof -
  from openCount_fill [OF assms, of len] openCount_le [OF assms, of len]
  have eq: "openCount N len + (filledAttestationNum N len - len) = N" by simp
  show d: "N dvd filledAttestationNum N len"
    by (simp add: filledAttestationNum_def)
  show p: "0 < filledAttestationNum N len"
  proof (cases len)
    case 0
    with assms show ?thesis by (simp add: filledAttestationNum_def)
  next
    case (Suc m)
    have "0 < (Suc m + N - 1) div N"
      using assms by (simp add: div_greater_zero_iff)
    with assms Suc show ?thesis by (simp add: filledAttestationNum_def)
  qed
  show le: "len \<le> filledAttestationNum N len"
  proof (cases len)
    case 0
    then show ?thesis by simp
  next
    case (Suc m)
    have "Suc m + N - 1 < ((Suc m + N - 1) div N) * N + N"
      using assms by (metis add.commute dividend_less_div_times mult.commute)
    then show ?thesis using Suc by (simp add: filledAttestationNum_def)
  qed
  from eq le show "filledAttestationNum N len \<le> len + N"
    by simp
  from eq le show "filledAttestationNum N len < len + N" if "0 < len"
    using that by (simp add: openCount_def)
qed

lemma padded_snoc:
  assumes inv: "padded cr acc"
    and e: "entries acc' = entries acc @ [e]"
    and r: "intermediateUserStateTreeRoots acc' = intermediateUserStateTreeRoots acc @ [r]"
    and t: "r = smtRoot cr (fromEpochUserStateTree acc')"
    and ok: "e_selector e = 1 \<or>
       (blankEntry e \<and> r = smtRoot cr (fromEpochUserStateTree acc))"
  shows "padded cr acc'"
proof -
  from inv have len: "length (intermediateUserStateTreeRoots acc) = length (entries acc) + 1"
    and lst: "last (intermediateUserStateTreeRoots acc) = smtRoot cr (fromEpochUserStateTree acc)"
    and old: "\<And>p. p < length (entries acc) \<Longrightarrow>
        e_selector (entries acc ! p) = 1 \<or>
        (blankEntry (entries acc ! p) \<and>
         intermediateUserStateTreeRoots acc ! (p + 1) = intermediateUserStateTreeRoots acc ! p)"
    by (simp_all add: padded_def)
  from len have ne: "intermediateUserStateTreeRoots acc \<noteq> []" by auto
  from len ne lst have top: "intermediateUserStateTreeRoots acc ! length (entries acc) =
      smtRoot cr (fromEpochUserStateTree acc)"
    by (simp add: last_conv_nth)
  have "e_selector (entries acc' ! p) = 1 \<or>
        (blankEntry (entries acc' ! p) \<and>
         intermediateUserStateTreeRoots acc' ! (p + 1) = intermediateUserStateTreeRoots acc' ! p)"
    if p: "p < length (entries acc')" for p
  proof (cases "p < length (entries acc)")
    case True
    with old [OF True] len show ?thesis
      by (simp add: e r nth_append)
  next
    case False
    with p e have "p = length (entries acc)" by simp
    with ok top len show ?thesis
      by (auto simp: e r nth_append)
  qed
  with len t show ?thesis
    by (simp add: padded_def e r)
qed

lemma processAttestation_padded:
  assumes "padded cr acc" "processAttestation cr s nonce i a chc acc = (chc', acc')"
  shows "padded cr acc'"
proof -
  note c = processAttestation_common [OF assms(2)]
  from c(2) obtain r where r:
    "intermediateUserStateTreeRoots acc' = intermediateUserStateTreeRoots acc @ [r]"
    "r = smtRoot cr (fromEpochUserStateTree acc')" by auto
  from c(3) obtain e where e: "entries acc' = entries acc @ [e]" "e_selector e = 1" by auto
  show ?thesis
    by (rule padded_snoc [OF assms(1) e(1) r]) (simp add: e(2))
qed

lemma processAttestationsLoop_padded:
  "padded cr acc \<Longrightarrow> processAttestationsLoop cr s nonce i atts chc acc = (chc', acc') \<Longrightarrow>
   padded cr acc'"
proof (induction atts arbitrary: i chc acc)
  case Nil
  then show ?case by simp
next
  case (Cons a atts)
  obtain c1 a1 where step: "processAttestation cr s nonce i a chc acc = (c1, a1)"
    by (cases "processAttestation cr s nonce i a chc acc")
  with Cons.prems have rest:
    "processAttestationsLoop cr s nonce (Suc i) atts c1 a1 = (chc', acc')" by simp
  from Cons.IH [OF processAttestation_padded [OF Cons.prems(1) step] rest] show ?case .
qed

lemma padLoop_padded: "padded cr acc \<Longrightarrow> padded cr (padLoop cr n acc)"
proof (induction n arbitrary: acc)
  case 0
  then show ?case by simp
next
  case (Suc n)
  let ?a = "acc\<lparr>entries := entries acc @ [paddingEntry cr (fromEpochUserStateTree acc)],
            intermediateUserStateTreeRoots := intermediateUserStateTreeRoots acc @
              [smtRoot cr (fromEpochUserStateTree acc)]\<rparr>"
  have "padded cr ?a"
    by (rule padded_snoc [OF Suc.prems, where e = "paddingEntry cr (fromEpochUserStateTree acc)"
          and r = "smtRoot cr (fromEpochUserStateTree acc)"])
       (simp_all add: blankEntry_def paddingEntry_def)
  from Suc.IH [OF this] show ?case by simp
qed

lemma padded_frame:
  "entries acc' = entries acc \<Longrightarrow>
   intermediateUserStateTreeRoots acc' = intermediateUserStateTreeRoots acc \<Longrightarrow>
   fromEpochUserStateTree acc' = fromEpochUserStateTree acc \<Longrightarrow>
   padded cr acc' = padded cr acc"
  by (simp add: padded_def)

lemma nonceBody_padded:
  assumes "padded cr acc"
  shows "padded cr (nonceBody cr sync s fromEpochTree nonce epochKey attestations acc)"
proof -
  define acc1 where "acc1 = acc\<lparr>toNonces := toNonces acc @ [int nonce],
                     hashChainStarter := hashChainStarter acc @ [0]\<rparr>"
  obtain chc acc2 where loop:
    "processAttestationsLoop cr s (int nonce) 0 attestations 0 acc1 = (chc, acc2)"
    by (cases "processAttestationsLoop cr s (int nonce) 0 attestations 0 acc1")
  define acc3 where "acc3 = padLoop cr
      (filledAttestationNum (NUM_ATTESTATIONS_PER_PROOF cr) (length attestations)
         - length attestations) acc2"
  from assms have "padded cr acc1"
    by (simp add: acc1_def padded_def)
  from processAttestationsLoop_padded [OF this loop] have "padded cr acc2" .
  then have p3: "padded cr acc3" unfolding acc3_def by (rule padLoop_padded)
  have "padded cr (nonceBody cr sync s fromEpochTree nonce epochKey attestations acc)
      = padded cr acc3"
    using loop
    by (intro padded_frame) (simp_all add: nonceBody_def acc1_def acc3_def Let_def)
  with p3 show ?thesis by simp
qed


lemma nonceLoop_padded:
  "padded cr acc \<Longrightarrow> nonceLoop cr sync s fromEpochTree nonces acc = Inr acc' \<Longrightarrow>
   padded cr acc'"
proof (induction nonces arbitrary: acc)
  case Nil
  then show ?case by simp
next
  case (Cons nonce nonces)
  from Cons.prems(2) obtain attestations where
    rest: "nonceLoop cr sync s fromEpochTree nonces
       (nonceBody cr sync s fromEpochTree nonce
          (genEpochKey cr (identityNullifier s) (latestTransitionedEpoch s)
                       (int nonce) (Some (epochTreeDepth sync))) attestations acc) = Inr acc'"
    by (auto simp: Let_def split: option.splits)
  from Cons.IH [OF nonceBody_padded [OF Cons.prems(1)] rest] show ?case .
qed

lemma initialAcc_padded: "padded cr (initialAcc cr s start)"
  by (simp add: padded_def initialAcc_def)

lemma map_constant: "\<forall>x \<in> set xs. f x = c \<Longrightarrow> map f xs = replicate (length xs) c"
  by (induction xs) auto

lemma nonceBody_layout:
  "map e_selector (entries (nonceBody cr sync s fromEpochTree nonce epochKey attestations acc)) =
     map e_selector (entries acc) @
     paddedSelectors (NUM_ATTESTATIONS_PER_PROOF cr) (length attestations)"
  "finalHashChain (nonceBody cr sync s fromEpochTree nonce epochKey attestations acc) =
     finalHashChain acc @ [hashChainOf cr attestations]"
proof -
  define N where "N = NUM_ATTESTATIONS_PER_PROOF cr"
  define n where "n = paddingCount N (length attestations)"
  define acc1 where "acc1 = acc\<lparr>toNonces := toNonces acc @ [int nonce],
                     hashChainStarter := hashChainStarter acc @ [0]\<rparr>"
  obtain chc acc2 where loop:
    "processAttestationsLoop cr s (int nonce) 0 attestations 0 acc1 = (chc, acc2)"
    by (cases "processAttestationsLoop cr s (int nonce) 0 attestations 0 acc1")
  define acc3 where "acc3 = padLoop cr n acc2"
  define R where "R = nonceBody cr sync s fromEpochTree nonce epochKey attestations acc"
  have eq: "entries R = entries acc3" "finalHashChain R = finalHashChain acc3 @ [chc]"
    using loop
    by (simp_all add: R_def nonceBody_def acc1_def acc3_def n_def N_def paddingCount_def
        Let_def)
  from processAttestationsLoop_fields [OF loop] obtain real where f:
    "chc = foldl (\<lambda>h a. hashLeftRight cr (attestationHash cr a) h) 0 attestations"
    "finalHashChain acc2 = finalHashChain acc1"
    "length real = length attestations"
    "\<forall>e \<in> set real. e_selector e = 1"
    "entries acc2 = entries acc1 @ real"
    by blast
  from map_constant [OF f(4)] f(3)
  have sel: "map e_selector real = replicate (length attestations) 1" by simp
  show "map e_selector (entries R) =
     map e_selector (entries acc) @ paddedSelectors N (length attestations)"
    using f(5) sel
    by (simp add: eq acc3_def padLoop_fields acc1_def paddedSelectors_def n_def
        paddingEntry_def)
  show "finalHashChain R = finalHashChain acc @ [hashChainOf cr attestations]"
    using f(1) f(2) by (simp add: eq acc3_def padLoop_fields acc1_def hashChainOf_def)
qed

lemma nonceLoop_layout:
  "nonceLoop cr sync s fromEpochTree nonces acc = Inr acc' \<Longrightarrow>
   map e_selector (entries acc') =
     map e_selector (entries acc) @
     concat (map (\<lambda>nonce. paddedSelectors (NUM_ATTESTATIONS_PER_PROOF cr)
                             (length (attestationsOf cr sync s nonce))) nonces) \<and>
   finalHashChain acc' =
     finalHashChain acc @ map (\<lambda>nonce. hashChainOf cr (attestationsOf cr sync s nonce)) nonces"
proof (induction nonces arbitrary: acc)
  case Nil
  then show ?case by simp
next
  case (Cons nonce nonces)
  from Cons.prems obtain attestations where
    g: "getAttestations sync (genEpochKey cr (identityNullifier s) (latestTransitionedEpoch s)
                       (int nonce) (Some (epochTreeDepth sync))) = Some attestations"
    and rest: "nonceLoop cr sync s fromEpochTree nonces
       (nonceBody cr sync s fromEpochTree nonce
          (genEpochKey cr (identityNullifier s) (latestTransitionedEpoch s)
                       (int nonce) (Some (epochTreeDepth sync))) attestations acc) = Inr acc'"
    by (auto simp: Let_def split: option.splits)
  from g have a: "attestationsOf cr sync s nonce = attestations"
    by (simp add: attestationsOf_def)
  from Cons.IH [OF rest] show ?case
    by (simp add: nonceBody_layout a)
qed

lemma processAttestation_nonces:
  assumes "processAttestation cr s nonce i a chc acc = (chc', acc')"
  shows "length (fromNonces acc') + length (toNonces acc) =
         length (fromNonces acc) + length (toNonces acc')"
proof (cases "batchBoundary (NUM_ATTESTATIONS_PER_PROOF cr) i")
  case True
  from processAttestation_boundary(1,2) [OF True assms] show ?thesis by simp
next
  case False
  from processAttestation_inside(1,2) [OF False assms] show ?thesis by simp
qed

lemma processAttestationsLoop_nonces:
  "processAttestationsLoop cr s nonce i atts chc acc = (chc', acc') \<Longrightarrow>
   length (fromNonces acc') + length (toNonces acc) =
   length (fromNonces acc) + length (toNonces acc')"
proof (induction atts arbitrary: i chc acc)
  case Nil
  then show ?case by simp
next
  case (Cons a atts)
  obtain c1 a1 where step: "processAttestation cr s nonce i a chc acc = (c1, a1)"
    by (cases "processAttestation cr s nonce i a chc acc")
  with Cons.prems have rest:
    "processAttestationsLoop cr s nonce (Suc i) atts c1 a1 = (chc', acc')" by simp
  from Cons.IH [OF rest] processAttestation_nonces [OF step] show ?case by simp
qed

lemma nonceBody_nonces:
  "length (fromNonces (nonceBody cr sync s fromEpochTree nonce epochKey attestations acc)) +
     length (toNonces acc) + 1 =
   length (fromNonces acc) +
     length (toNonces (nonceBody cr sync s fromEpochTree nonce epochKey attestations acc)) +
     (if int nonce \<noteq> int (numEpochKeyNoncePerEpoch sync) - 1 then 1 else 0)"
proof -
  define acc1 where "acc1 = acc\<lparr>toNonces := toNonces acc @ [int nonce],
                     hashChainStarter := hashChainStarter acc @ [0]\<rparr>"
  obtain chc acc2 where loop:
    "processAttestationsLoop cr s (int nonce) 0 attestations 0 acc1 = (chc, acc2)"
    by (cases "processAttestationsLoop cr s (int nonce) 0 attestations 0 acc1")
  define R where "R = nonceBody cr sync s fromEpochTree nonce epochKey attestations acc"
  have eq: "toNonces R = toNonces acc2"
    "fromNonces R = (if int nonce \<noteq> int (numEpochKeyNoncePerEpoch sync) - 1
                     then fromNonces acc2 @ [int nonce] else fromNonces acc2)"
    using loop by (simp_all add: R_def nonceBody_def acc1_def Let_def padLoop_fields)
  from processAttestationsLoop_nonces [OF loop]
  have "length (fromNonces acc2) + length (toNonces acc) + 1 =
        length (fromNonces acc) + length (toNonces acc2)"
    by (simp add: acc1_def)
  then show ?thesis
    unfolding R_def [symmetric] eq by simp
qed

lemma nonceLoop_nonces:
  "nonceLoop cr sync s fromEpochTree nonces acc = Inr acc' \<Longrightarrow>
   length (fromNonces acc') + length (toNonces acc) + length nonces =
   length (fromNonces acc) + length (toNonces acc') +
   length (filter (\<lambda>nonce. int nonce \<noteq> int (numEpochKeyNoncePerEpoch sync) - 1) nonces)"
proof (induction nonces arbitrary: acc)
  case Nil
  then show ?case by simp
next
  case (Cons nonce nonces)
  from Cons.prems obtain attestations where
    rest: "nonceLoop cr sync s fromEpochTree nonces
       (nonceBody cr sync s fromEpochTree nonce
          (genEpochKey cr (identityNullifier s) (latestTransitionedEpoch s)
                       (int nonce) (Some (epochTreeDepth sync))) attestations acc) = Inr acc'"
    by (auto simp: Let_def split: option.splits)
  from Cons.IH [OF rest]
    nonceBody_nonces [of cr sync s fromEpochTree nonce
      "genEpochKey cr (identityNullifier s) (latestTransitionedEpoch s)
                       (int nonce) (Some (epochTreeDepth sync))" attestations acc]
  show ?case by (simp split: if_splits)
qed

lemma filter_last_nonce:
  "0 < K \<Longrightarrow> length (filter (\<lambda>nonce. int nonce \<noteq> int K - 1) [0..<K]) = K - 1"
proof -
  assume "0 < K"
  then obtain k where K: "K = Suc k" by (cases K) auto
  have "filter (\<lambda>nonce. int nonce \<noteq> int k) [0..<k] = [0..<k]"
    by (rule filter_True) auto
  then show ?thesis by (simp add: K)
qed

lemma slice_slice:
  "b \<le> n \<Longrightarrow> slice (take n xs) a b = slice xs a b"
  by (simp add: slice_def drop_take min_def)

lemma concat_slices:
  "length xs = N * T \<Longrightarrow>
   concat (map (\<lambda>i. slice xs (N * i) (N * (i + 1))) [0..<T]) = xs"
proof (induction T arbitrary: xs)
  case 0
  then show ?case by simp
next
  case (Suc T)
  have front: "map (\<lambda>i. slice xs (N * i) (N * (i + 1))) [0..<T] =
      map (\<lambda>i. slice (take (N * T) xs) (N * i) (N * (i + 1))) [0..<T]"
  proof (rule map_cong [OF refl])
    fix i assume "i \<in> set [0..<T]"
    then have "N * (i + 1) \<le> N * T" by (intro mult_le_mono2) simp
    then show "slice xs (N * i) (N * (i + 1)) = slice (take (N * T) xs) (N * i) (N * (i + 1))"
      by (simp add: slice_slice)
  qed
  from Suc.prems have "length (take (N * T) xs) = N * T" by simp
  then have "concat (map (\<lambda>i. slice xs (N * i) (N * (i + 1))) [0..<T]) = take (N * T) xs"
    unfolding front by (rule Suc.IH)
  moreover from Suc.prems have "slice xs (N * T) (N * (T + 1)) = drop (N * T) xs"
    by (simp add: slice_def)
  ultimately show ?case by simp
qed

lemma nth_slice:
  "a + p < length xs \<Longrightarrow> a + p < b \<Longrightarrow> slice xs a b ! p = xs ! (a + p)"
  by (simp add: slice_def)

lemma genUserStateTransitionProofs_final:
  assumes "genUserStateTransitionProofs cr sync s = Inr out"
  shows "\<exists>fromEpochTree acc.
     nonceLoop cr sync s fromEpochTree [0..<numEpochKeyNoncePerEpoch sync]
       (initialAcc cr s (startTransitionCircuitInputs out)) = Inr acc \<and>
     processAttestationCircuitInputs out =
       map (processAttestationCircuitInput cr s acc) [0..<length (fromNonces acc)] \<and>
     fi_hash_chain_results (finalTransitionCircuitInputs out) = finalHashChain acc"
proof -
  from assms have su: "hasSignedUp s"
    by (simp add: genUserStateTransitionProofs_def split: if_splits)
  from assms su obtain G where G: "genGSTree sync (latestTransitionedEpoch s) = Some G"
    by (cases "genGSTree sync (latestTransitionedEpoch s)")
       (simp_all add: genUserStateTransitionProofs_def Let_def)
  from assms su G obtain P where P: "imt_createProof G (latestGSTLeafIndex s) = Some P"
    by (cases "imt_createProof G (latestGSTLeafIndex s)")
       (simp_all add: genUserStateTransitionProofs_def Let_def)
  from assms su G P obtain E where E: "genEpochTree sync (latestTransitionedEpoch s) = Some E"
    by (cases "genEpochTree sync (latestTransitionedEpoch s)")
       (simp_all add: genUserStateTransitionProofs_def Let_def)
  define start where "start = genStartTransitionCircuitInputs cr s 0
      (smtRoot cr (genUserStateTree cr s)) P (imt_root G)"
  from assms su G P E obtain acc where
    acc: "nonceLoop cr sync s E [0..<numEpochKeyNoncePerEpoch sync] (initialAcc cr s start)
            = Inr acc"
    by (cases "nonceLoop cr sync s E [0..<numEpochKeyNoncePerEpoch sync]
                 (initialAcc cr s start)")
       (simp_all add: genUserStateTransitionProofs_def Let_def start_def)
  from assms su G P E acc have o: "startTransitionCircuitInputs out = start"
    "processAttestationCircuitInputs out =
       map (processAttestationCircuitInput cr s acc) [0..<length (fromNonces acc)]"
    "fi_hash_chain_results (finalTransitionCircuitInputs out) = finalHashChain acc"
    by (auto simp: genUserStateTransitionProofs_def Let_def start_def)
  with acc show ?thesis by auto
qed

text \<open>
  C8.  Let the batch size \<open>N\<close> and the number of epoch-key nonces be positive.  In the
  inputs \<open>genUserStateTransitionProofs\<close> assembles, every process-attestations batch holds
  exactly \<open>N\<close> entries and \<open>N + 1\<close> intermediate roots.  An entry of a batch whose selector
  is not 1 is blank, its selector 0 and every attestation field zero, and the root recorded
  after it is the root recorded before it.  Read in order, the selectors of all the batches
  are, nonce after nonce, a 1 for every attestation the ledger holds for the epoch key of
  the nonce and then the 0s of the padding, whose number added to the number of
  attestations is a positive multiple of \<open>N\<close>; it is at most \<open>N\<close>, and less than \<open>N\<close> when
  there is an attestation.  The hash chain result of a nonce in the inputs of the final
  proof is the chain over the attestations of the nonce alone: the blank entries do not
  enter it.
\<close>

theorem genUserStateTransitionProofs_padding:
  assumes pos: "0 < NUM_ATTESTATIONS_PER_PROOF cr"
    and nonces: "0 < numEpochKeyNoncePerEpoch sync"
    and run: "genUserStateTransitionProofs cr sync s = Inr out"
    and i: "i < length (processAttestationCircuitInputs out)"
  shows "length (pa_entries (processAttestationCircuitInputs out ! i))
       = NUM_ATTESTATIONS_PER_PROOF cr
    \<and> length (pa_intermediate_user_state_tree_roots (processAttestationCircuitInputs out ! i))
       = NUM_ATTESTATIONS_PER_PROOF cr + 1
    \<and> (\<forall>p. p < NUM_ATTESTATIONS_PER_PROOF cr \<and>
            e_selector (pa_entries (processAttestationCircuitInputs out ! i) ! p) \<noteq> 1 \<longrightarrow>
         blankEntry (pa_entries (processAttestationCircuitInputs out ! i) ! p) \<and>
         pa_intermediate_user_state_tree_roots (processAttestationCircuitInputs out ! i)
             ! (p + 1) =
           pa_intermediate_user_state_tree_roots (processAttestationCircuitInputs out ! i) ! p)
    \<and> map e_selector (concat (map pa_entries (processAttestationCircuitInputs out))) =
        concat (map (\<lambda>nonce. paddedSelectors (NUM_ATTESTATIONS_PER_PROOF cr)
                                (length (attestationsOf cr sync s nonce)))
                  [0..<numEpochKeyNoncePerEpoch sync])
    \<and> fi_hash_chain_results (finalTransitionCircuitInputs out) =
        map (\<lambda>nonce. hashChainOf cr (attestationsOf cr sync s nonce))
          [0..<numEpochKeyNoncePerEpoch sync]
    \<and> (\<forall>len. NUM_ATTESTATIONS_PER_PROOF cr dvd
                 len + paddingCount (NUM_ATTESTATIONS_PER_PROOF cr) len \<and>
              0 < len + paddingCount (NUM_ATTESTATIONS_PER_PROOF cr) len \<and>
              paddingCount (NUM_ATTESTATIONS_PER_PROOF cr) len \<le> NUM_ATTESTATIONS_PER_PROOF cr \<and>
              (0 < len \<longrightarrow>
                 paddingCount (NUM_ATTESTATIONS_PER_PROOF cr) len
                   < NUM_ATTESTATIONS_PER_PROOF cr))"
proof -
  define N where "N = NUM_ATTESTATIONS_PER_PROOF cr"
  define K where "K = numEpochKeyNoncePerEpoch sync"
  define b0 where "b0 = start_blindedUserState (startTransitionCircuitInputs out)"
  from genUserStateTransitionProofs_final [OF run] obtain fromEpochTree acc where
    loop: "nonceLoop cr sync s fromEpochTree [0..<K]
       (initialAcc cr s (startTransitionCircuitInputs out)) = Inr acc"
    and batches: "processAttestationCircuitInputs out =
       map (processAttestationCircuitInput cr s acc) [0..<length (fromNonces acc)]"
    and final: "fi_hash_chain_results (finalTransitionCircuitInputs out) = finalHashChain acc"
    unfolding K_def by blast
  define T where "T = length (toNonces acc)"
  define es where "es = entries acc"
  define rs where "rs = intermediateUserStateTreeRoots acc"
  have closed: "chainClosed cr s b0 acc"
    unfolding b0_def
    by (rule nonceLoop_chainClosed [OF pos initialAcc_chainClosed loop [unfolded K_def]])
  then have le: "length es = N * T" and lr: "length rs = N * T + 1"
    by (simp_all add: chainClosed_def N_def T_def es_def rs_def)
  have inv: "padded cr acc"
    by (rule nonceLoop_padded [OF initialAcc_padded loop])
  from nonceLoop_nonces [OF loop] filter_last_nonce [OF nonces]
  have count: "length (fromNonces acc) = T"
    using nonces by (simp add: initialAcc_def T_def K_def)
  from i batches count have iT: "i < T" by simp
  then have "N * (i + 1) \<le> N * T" by (intro mult_le_mono2) simp
  then have bound: "N * i + N \<le> N * T" by simp
  have b: "pa_entries (processAttestationCircuitInputs out ! i) = slice es (N * i) (N * (i + 1))"
    "pa_intermediate_user_state_tree_roots (processAttestationCircuitInputs out ! i) =
       slice rs (N * i) (N * (i + 1) + 1)"
    using iT count batches
    by (simp_all add: processAttestationCircuitInput_def Let_def N_def es_def rs_def)
  have c1: "length (slice es (N * i) (N * (i + 1))) = N"
    using bound le by (simp add: slice_def)
  have c2: "length (slice rs (N * i) (N * (i + 1) + 1)) = N + 1"
    using bound lr by (simp add: slice_def)
  have c3: "blankEntry (slice es (N * i) (N * (i + 1)) ! p) \<and>
         slice rs (N * i) (N * (i + 1) + 1) ! (p + 1) = slice rs (N * i) (N * (i + 1) + 1) ! p"
    if p: "p < N" and sel: "e_selector (slice es (N * i) (N * (i + 1)) ! p) \<noteq> 1" for p
  proof -
    from p bound le have q: "N * i + p < length es" by simp
    have e: "slice es (N * i) (N * (i + 1)) ! p = es ! (N * i + p)"
      using q p by (intro nth_slice) simp_all
    have r0: "slice rs (N * i) (N * (i + 1) + 1) ! p = rs ! (N * i + p)"
      using q p le lr by (intro nth_slice) simp_all
    have r1: "slice rs (N * i) (N * (i + 1) + 1) ! (p + 1) = rs ! (N * i + p + 1)"
      using nth_slice [of "N * i" "p + 1" rs "N * (i + 1) + 1"] q p le lr by simp
    from inv q have "e_selector (es ! (N * i + p)) = 1 \<or>
        (blankEntry (es ! (N * i + p)) \<and> rs ! (N * i + p + 1) = rs ! (N * i + p))"
      by (simp add: padded_def es_def rs_def)
    with sel e r0 r1 show ?thesis by simp
  qed
  have all: "concat (map pa_entries (processAttestationCircuitInputs out)) = es"
  proof -
    have "map pa_entries (processAttestationCircuitInputs out) =
        map (\<lambda>i. slice es (N * i) (N * (i + 1))) [0..<T]"
      by (simp add: batches count processAttestationCircuitInput_def Let_def N_def es_def)
    with concat_slices [OF le] show ?thesis by simp
  qed
  from nonceLoop_layout [OF loop]
  have lay: "map e_selector es =
     concat (map (\<lambda>nonce. paddedSelectors N (length (attestationsOf cr sync s nonce))) [0..<K])"
    and chain: "finalHashChain acc =
       map (\<lambda>nonce. hashChainOf cr (attestationsOf cr sync s nonce)) [0..<K]"
    by (simp_all add: initialAcc_def es_def N_def)
  from pos have posN: "0 < N" by (simp add: N_def)
  have c6: "N dvd len + paddingCount N len \<and> 0 < len + paddingCount N len \<and>
      paddingCount N len \<le> N \<and> (0 < len \<longrightarrow> paddingCount N len < N)" for len
    using filledAttestationNum_bounds [OF posN, of len]
    by (auto simp: paddingCount_def)
  from c1 c2 c3 all lay chain final c6 show ?thesis
    unfolding b N_def [symmetric] K_def [symmetric] by simp
qed

theorem genUserStateTransitionProofs_padding_witness:
  "0 < NUM_ATTESTATIONS_PER_PROOF sampleCrypto \<and>
   0 < numEpochKeyNoncePerEpoch attestedSync \<and>
   \<not> isl (genUserStateTransitionProofs sampleCrypto attestedSync signedUpState) \<and>
   0 < length (processAttestationCircuitInputs
         (projr (genUserStateTransitionProofs sampleCrypto attestedSync signedUpState))) \<and>
   (1::nat) < NUM_ATTESTATIONS_PER_PROOF sampleCrypto \<and>
   map e_selector (pa_entries (processAttestationCircuitInputs
         (projr (genUserStateTransitionProofs sampleCrypto attestedSync signedUpState)) ! 0))
     = [1, 0] \<and>
   blankEntry (pa_entries (processAttestationCircuitInputs
         (projr (genUserStateTransitionProofs sampleCrypto attestedSync signedUpState)) ! 0)
       ! 1) \<and>
   pa_intermediate_user_state_tree_roots (processAttestationCircuitInputs
         (projr (genUserStateTransitionProofs sampleCrypto attestedSync signedUpState)) ! 0)
     = [6, 9, 9] \<and>
   map e_selector (concat (map pa_entries (processAttestationCircuitInputs
         (projr (genUserStateTransitionProofs sampleCrypto attestedSync signedUpState)))))
     = [1, 0, 0, 0, 0, 0] \<and>
   fi_hash_chain_results (finalTransitionCircuitInputs
         (projr (genUserStateTransitionProofs sampleCrypto attestedSync signedUpState)))
     = [hashChainOf sampleCrypto [sampleAttestation], 0, 0]"
proof -
  have pos: "0 < NUM_ATTESTATIONS_PER_PROOF sampleCrypto"
    and one: "(1::nat) < NUM_ATTESTATIONS_PER_PROOF sampleCrypto"
    by (simp_all add: sampleCrypto_def)
  have nonces: "0 < numEpochKeyNoncePerEpoch attestedSync"
    by (simp add: attestedSync_def sampleSync_def)
  have ok: "\<not> isl (genUserStateTransitionProofs sampleCrypto attestedSync signedUpState)"
    by code_simp
  then obtain out where
    run: "genUserStateTransitionProofs sampleCrypto attestedSync signedUpState = Inr out"
    by (cases "genUserStateTransitionProofs sampleCrypto attestedSync signedUpState") auto
  have len: "0 < length (processAttestationCircuitInputs
         (projr (genUserStateTransitionProofs sampleCrypto attestedSync signedUpState)))"
    by code_simp
  have sel: "map e_selector (pa_entries (processAttestationCircuitInputs
         (projr (genUserStateTransitionProofs sampleCrypto attestedSync signedUpState)) ! 0))
     = [1, 0]"
    by code_simp
  have roots: "pa_intermediate_user_state_tree_roots (processAttestationCircuitInputs
         (projr (genUserStateTransitionProofs sampleCrypto attestedSync signedUpState)) ! 0)
     = [6, 9, 9]"
    by code_simp
  have blank: "e_selector (pa_entries (processAttestationCircuitInputs
         (projr (genUserStateTransitionProofs sampleCrypto attestedSync signedUpState)) ! 0)
       ! 1) \<noteq> 1"
    by code_simp
  have lay: "concat (map (\<lambda>nonce. paddedSelectors (NUM_ATTESTATIONS_PER_PROOF sampleCrypto)
                (length (attestationsOf sampleCrypto attestedSync signedUpState nonce)))
              [0..<numEpochKeyNoncePerEpoch attestedSync]) = [1, 0, 0, 0, 0, 0]"
    by code_simp
  have chain: "map (\<lambda>nonce. hashChainOf sampleCrypto
                   (attestationsOf sampleCrypto attestedSync signedUpState nonce))
              [0..<numEpochKeyNoncePerEpoch attestedSync] =
            [hashChainOf sampleCrypto [sampleAttestation], 0, 0]"
    by code_simp
  from len run have i: "0 < length (processAttestationCircuitInputs out)" by simp
  note pad = genUserStateTransitionProofs_padding [OF pos nonces run i]
  from blank run one
    pad [THEN conjunct2, THEN conjunct2, THEN conjunct1, rule_format, of 1]
  have b1: "blankEntry (pa_entries (processAttestationCircuitInputs out ! 0) ! 1)"
    by simp
  from pad b1 pos one nonces ok len sel roots lay chain run
  show ?thesis by simp
qed


section \<open>What epochTransition leaves unchanged\<close>

text \<open>
  Whatever its outcome, \<open>epochTransition\<close> leaves the identity, the sign-up flag, the
  committed epoch and leaf index and the references the committed array holds as they
  were, and a call for another epoch changes nothing at all.  The leaf objects those
  references denote are not covered.
\<close>

lemma committedFrame_refl: "committedFrame s s"
  by (simp add: committedFrame_def)

lemma committedFrame_trans:
  "committedFrame s s' \<Longrightarrow> committedFrame s' s'' \<Longrightarrow> committedFrame s s''"
  by (simp add: committedFrame_def)

lemma saveAttestations_loop_frame:
  "saveAttestations_loop cr sync fromEpoch nonces s = (r, s') \<Longrightarrow>
   committedFrame s s' \<and> objects s' = objects s \<and> nextRef s' = nextRef s \<and>
   newGSTLeaf s' = newGSTLeaf s \<and> newUSTLeaves s' = newUSTLeaves s"
proof (induction nonces arbitrary: s)
  case Nil
  then show ?case by (simp add: committedFrame_def)
next
  case (Cons nonce nonces)
  show ?case
  proof (cases "getAttestations sync (genEpochKey cr (identityNullifier s) fromEpoch
                  (int nonce) (Some (epochTreeDepth sync)))")
    case None
    with Cons.prems show ?thesis by (simp add: committedFrame_def)
  next
    case (Some attestations)
    with Cons.prems Cons.IH [of "s\<lparr>transitionedFromAttestations :=
        (transitionedFromAttestations s)(genEpochKey cr (identityNullifier s) fromEpoch
           (int nonce) (Some (epochTreeDepth sync)) \<mapsto> attestations)\<rparr>"]
    show ?thesis by (simp add: committedFrame_def)
  qed
qed

lemma updateUserStateLeaf_frame:
  "updateUserStateLeaf a stateLeaves s = (stateLeaves', s') \<Longrightarrow>
   committedFrame s s' \<and> newGSTLeaf s' = newGSTLeaf s \<and> newUSTLeaves s' = newUSTLeaves s \<and>
   transitionedFromAttestations s' = transitionedFromAttestations s"
  by (auto simp: updateUserStateLeaf_def committedFrame_def split: option.splits)

lemma applyAttestations_frame:
  "applyAttestations as stateLeaves s = (stateLeaves', s') \<Longrightarrow>
   committedFrame s s' \<and> newGSTLeaf s' = newGSTLeaf s \<and> newUSTLeaves s' = newUSTLeaves s \<and>
   transitionedFromAttestations s' = transitionedFromAttestations s"
proof (induction as arbitrary: stateLeaves s)
  case Nil
  then show ?case by (simp add: committedFrame_def)
next
  case (Cons a as)
  obtain l1 s1 where u: "updateUserStateLeaf a stateLeaves s = (l1, s1)"
    by (cases "updateUserStateLeaf a stateLeaves s")
  with Cons.prems have "applyAttestations as l1 s1 = (stateLeaves', s')" by simp
  from Cons.IH [OF this] updateUserStateLeaf_frame [OF u] show ?case
    by (simp add: committedFrame_def)
qed

lemma foldNonces_frame:
  "foldNonces cr sync fromEpoch nonces stateLeaves s = (stateLeaves', s') \<Longrightarrow>
   committedFrame s s' \<and> newGSTLeaf s' = newGSTLeaf s \<and> newUSTLeaves s' = newUSTLeaves s \<and>
   transitionedFromAttestations s' = transitionedFromAttestations s"
proof (induction nonces arbitrary: stateLeaves s)
  case Nil
  then show ?case by (simp add: committedFrame_def)
next
  case (Cons nonce nonces)
  show ?case
  proof (cases "transitionedFromAttestations s (genEpochKey cr (identityNullifier s) fromEpoch
                  (int nonce) (Some (epochTreeDepth sync)))")
    case None
    with Cons.prems Cons.IH [of stateLeaves s] show ?thesis by simp
  next
    case (Some attestations)
    obtain l1 s1 where a: "applyAttestations attestations stateLeaves s = (l1, s1)"
      by (cases "applyAttestations attestations stateLeaves s")
    with Cons.prems Some have "foldNonces cr sync fromEpoch nonces l1 s1 = (stateLeaves', s')"
      by simp
    from Cons.IH [OF this] applyAttestations_frame [OF a] show ?thesis
      by (simp add: committedFrame_def)
  qed
qed

lemma epochTransition_frame:
  assumes "epochTransition cr sync epoch s = (r, s')"
  shows "committedFrame s s'" and "epoch \<noteq> latestTransitionedEpoch s \<Longrightarrow> s' = s \<and> r = None"
proof -
  show "epoch \<noteq> latestTransitionedEpoch s \<Longrightarrow> s' = s \<and> r = None"
    using assms by (simp add: epochTransition_def)
  show "committedFrame s s'"
  proof (cases "epoch = latestTransitionedEpoch s")
    case False
    with assms show ?thesis by (simp add: epochTransition_def committedFrame_def)
  next
    case True
    obtain r1 s1 where sa: "saveAttestations cr sync s = (r1, s1)"
      by (cases "saveAttestations cr sync s")
    have f1: "committedFrame s s1"
      using sa saveAttestations_loop_frame [of cr sync "latestTransitionedEpoch s"
          "[0..<numEpochKeyNoncePerEpoch sync]" s r1 s1]
      by (auto simp: saveAttestations_def committedFrame_def split: if_splits)
    show ?thesis
    proof (cases r1)
      case (Some e)
      with assms True sa f1 show ?thesis by (simp add: epochTransition_def)
    next
      case None
      obtain g s2 where gen: "genNewUserStateAfterTransition cr sync s1 = (g, s2)"
        by (cases "genNewUserStateAfterTransition cr sync s1")
      have f2: "committedFrame s1 s2"
      proof (cases "hasSignedUp s1")
        case False
        with gen show ?thesis
          by (simp add: genNewUserStateAfterTransition_def committedFrame_def)
      next
        case su: True
        obtain l3 s3 where fo: "foldNonces cr sync (latestTransitionedEpoch s1)
            [0..<numEpochKeyNoncePerEpoch sync] (latestUserStateLeaves s1) s1 = (l3, s3)"
          by (cases "foldNonces cr sync (latestTransitionedEpoch s1)
            [0..<numEpochKeyNoncePerEpoch sync] (latestUserStateLeaves s1) s1")
        with gen su have "s2 = s3" by (simp add: genNewUserStateAfterTransition_def)
        with foldNonces_frame [OF fo] show ?thesis by simp
      qed
      from committedFrame_trans [OF f1 f2] have f: "committedFrame s s2" .
      from assms True sa None gen have "s' = s2 \<or> (\<exists>l ls. s' = s2\<lparr>newGSTLeaf := l, newUSTLeaves := ls\<rparr>)"
        by (auto simp: epochTransition_def split: sum.splits prod.splits)
      with f show ?thesis by (auto simp: committedFrame_def)
    qed
  qed
qed

section \<open>The leaf arrays carry distinct attester ids\<close>

text \<open>
  The methods that write the state keep it well formed, and \<open>fromJSON\<close> builds a
  well-formed state from an object, whose keys are distinct; so does \<open>toJSON\<close> produce
  distinct keys.  The round trip of the serialization is stated for states whose
  committed leaves carry distinct attester ids; these are the states met in a run.
\<close>

lemma extends_refl: "extends s s"
  by (simp add: extends_def)

lemma extends_trans: "extends s s' \<Longrightarrow> extends s' s'' \<Longrightarrow> extends s s''"
  by (auto simp: extends_def)

lemma extends_distinctLeaves:
  assumes "extends s s'" "distinctLeaves s refs"
  shows "distinctLeaves s' refs"
proof -
  from assms have "map attesterId (leavesOf s' refs) = map attesterId (leavesOf s refs)"
    by (auto simp: extends_def distinctLeaves_def leavesOf_def)
  with assms show ?thesis
    by (auto simp: extends_def distinctLeaves_def)
qed

lemma findLeaf_Some: "findLeaf h a refs = Some r \<Longrightarrow> r \<in> set refs \<and> attesterId (h r) = a"
  by (induction refs) (auto split: if_splits)

lemma findLeaf_None: "findLeaf h a refs = None \<Longrightarrow> \<forall>r \<in> set refs. attesterId (h r) \<noteq> a"
  by (induction refs) (auto split: if_splits)

lemma updateUserStateLeaf_wf:
  assumes "updateUserStateLeaf a stateLeaves s = (stateLeaves', s')"
    and "distinctLeaves s stateLeaves"
  shows "extends s s'" and "distinctLeaves s' stateLeaves'"
proof -
  show e: "extends s s'"
    using assms(1)
    by (auto simp: updateUserStateLeaf_def extends_def split: option.splits)
  show "distinctLeaves s' stateLeaves'"
  proof (cases "findLeaf (objects s) (att_attesterId a) stateLeaves")
    case (Some r)
    with assms(1) have "stateLeaves' = stateLeaves"
      by (simp add: updateUserStateLeaf_def)
    with extends_distinctLeaves [OF e assms(2)] show ?thesis by simp
  next
    case None
    with assms(1) have l: "stateLeaves' = stateLeaves @ [nextRef s]"
      and o: "objects s' = (objects s)(nextRef s :=
                \<lparr>attesterId = att_attesterId a,
                 reputation = Reputation_update Reputation_default (att_posRep a)
                   (att_negRep a) (att_graffiti a) (att_signUp a)\<rparr>)"
      and n: "nextRef s' = Suc (nextRef s)"
      by (auto simp: updateUserStateLeaf_def)
    from findLeaf_None [OF None] have fresh:
      "att_attesterId a \<notin> attesterId ` objects s ` set stateLeaves" by auto
    from assms(2) have lt: "\<forall>r \<in> set stateLeaves. r < nextRef s"
      by (simp add: distinctLeaves_def)
    then have same: "map (objects s') stateLeaves = map (objects s) stateLeaves"
      by (auto simp: o)
    from assms(2) fresh lt show ?thesis
      by (auto simp: distinctLeaves_def leavesOf_def l n same) (auto simp: o)
  qed
qed

lemma applyAttestations_wf:
  "applyAttestations as stateLeaves s = (stateLeaves', s') \<Longrightarrow>
   distinctLeaves s stateLeaves \<Longrightarrow> extends s s' \<and> distinctLeaves s' stateLeaves'"
proof (induction as arbitrary: stateLeaves s)
  case Nil
  then show ?case by (simp add: extends_refl)
next
  case (Cons a as)
  obtain l1 s1 where u: "updateUserStateLeaf a stateLeaves s = (l1, s1)"
    by (cases "updateUserStateLeaf a stateLeaves s")
  with Cons.prems have r: "applyAttestations as l1 s1 = (stateLeaves', s')" by simp
  note w = updateUserStateLeaf_wf [OF u Cons.prems(2)]
  from Cons.IH [OF r w(2)] w(1) show ?case
    by (auto intro: extends_trans)
qed

lemma foldNonces_wf:
  "foldNonces cr sync fromEpoch nonces stateLeaves s = (stateLeaves', s') \<Longrightarrow>
   distinctLeaves s stateLeaves \<Longrightarrow> extends s s' \<and> distinctLeaves s' stateLeaves'"
proof (induction nonces arbitrary: stateLeaves s)
  case Nil
  then show ?case by (simp add: extends_refl)
next
  case (Cons nonce nonces)
  show ?case
  proof (cases "transitionedFromAttestations s (genEpochKey cr (identityNullifier s) fromEpoch
                  (int nonce) (Some (epochTreeDepth sync)))")
    case None
    with Cons.prems Cons.IH [of stateLeaves s] show ?thesis by simp
  next
    case (Some attestations)
    obtain l1 s1 where a: "applyAttestations attestations stateLeaves s = (l1, s1)"
      by (cases "applyAttestations attestations stateLeaves s")
    with Cons.prems Some have r: "foldNonces cr sync fromEpoch nonces l1 s1 = (stateLeaves', s')"
      by simp
    from applyAttestations_wf [OF a Cons.prems(2)] have w: "extends s s1" "distinctLeaves s1 l1"
      by simp_all
    from Cons.IH [OF r w(2)] w(1) show ?thesis
      by (auto intro: extends_trans)
  qed
qed

lemma userStateTransition_wellFormed:
  assumes "userStateTransition sync fromEpoch GSTLeaf s = (r, s')" "wellFormed s"
  shows "wellFormed s'"
proof -
  have e: "distinctLeaves x []" for x by (simp add: distinctLeaves_def leavesOf_def)
  from assms(1) have "s' = s \<or> s' = s\<lparr>newGSTLeaf := 0, newUSTLeaves := []\<rparr> \<or>
     (\<exists>cur n. s' = s\<lparr>latestTransitionedEpoch := cur, latestGSTLeafIndex := n,
                latestUserStateLeaves := newUSTLeaves s, newGSTLeaf := 0, newUSTLeaves := []\<rparr>)"
    by (auto simp: userStateTransition_def transition_def split: if_splits option.splits)
  with assms(2) show ?thesis
    by (auto simp: wellFormed_def distinctLeaves_def leavesOf_def)
qed

lemma signUp_wellFormed:
  assumes "signUp sync epoch identityCommitment attester airdropAmount s = (r, s')"
    "wellFormed s"
  shows "wellFormed s'"
proof -
  define leaf where "leaf a d =
    \<lparr>attesterId = a, reputation = Reputation_update Reputation_default d 0 0 True\<rparr>"
    for a d :: int
  define seeded where "seeded a d =
    s\<lparr>latestUserStateLeaves := [nextRef s],
      objects := (objects s)(nextRef s := leaf a d),
      nextRef := Suc (nextRef s)\<rparr>" for a d
  have ws: "wellFormed (seeded a d)" for a d
  proof -
    have e: "extends s (seeded a d)"
      by (auto simp: seeded_def extends_def)
    from assms(2) have "distinctLeaves s (newUSTLeaves s)" by (simp add: wellFormed_def)
    from extends_distinctLeaves [OF e this]
    have "distinctLeaves (seeded a d) (newUSTLeaves (seeded a d))"
      by (simp add: seeded_def)
    moreover have "distinctLeaves (seeded a d) (latestUserStateLeaves (seeded a d))"
      by (simp add: seeded_def distinctLeaves_def leavesOf_def)
    ultimately show ?thesis by (simp add: wellFormed_def)
  qed
  have frame: "wellFormed (x\<lparr>latestTransitionedEpoch := e\<rparr>) = wellFormed x"
    "wellFormed (x\<lparr>latestGSTLeafIndex := i\<rparr>) = wellFormed x"
    "wellFormed (x\<lparr>hasSignedUp := b\<rparr>) = wellFormed x" for x e i b
    by (simp_all add: wellFormed_def distinctLeaves_def leavesOf_def)
  from assms show ?thesis
    by (auto simp: signUp_def Let_def frame ws [unfolded seeded_def leaf_def]
        split: if_splits option.splits)
qed

lemma epochTransition_wellFormed:
  assumes "epochTransition cr sync epoch s = (r, s')" "wellFormed s"
  shows "wellFormed s'"
proof (cases "epoch = latestTransitionedEpoch s")
  case False
  with assms show ?thesis by (simp add: epochTransition_def)
next
  case True
  obtain r1 s1 where sa: "saveAttestations cr sync s = (r1, s1)"
    by (cases "saveAttestations cr sync s")
  have k1: "committedFrame s s1 \<and> objects s1 = objects s \<and> nextRef s1 = nextRef s \<and>
      newUSTLeaves s1 = newUSTLeaves s"
    using sa saveAttestations_loop_frame [of cr sync "latestTransitionedEpoch s"
        "[0..<numEpochKeyNoncePerEpoch sync]" s r1 s1]
    by (auto simp: saveAttestations_def committedFrame_def split: if_splits)
  with assms(2) have w1: "wellFormed s1"
    by (simp add: wellFormed_def distinctLeaves_def leavesOf_def committedFrame_def)
  show ?thesis
  proof (cases r1)
    case (Some e)
    with assms(1) True sa w1 show ?thesis by (simp add: epochTransition_def)
  next
    case None
    obtain g s2 where gen: "genNewUserStateAfterTransition cr sync s1 = (g, s2)"
      by (cases "genNewUserStateAfterTransition cr sync s1")
    show ?thesis
    proof (cases "hasSignedUp s1")
      case False
      with gen have "s2 = s1" "g = Inl NotSignedUp"
        by (simp_all add: genNewUserStateAfterTransition_def)
      with assms(1) True sa None gen w1 show ?thesis
        by (simp add: epochTransition_def)
    next
      case su: True
      obtain l3 s3 where fo: "foldNonces cr sync (latestTransitionedEpoch s1)
          [0..<numEpochKeyNoncePerEpoch sync] (latestUserStateLeaves s1) s1 = (l3, s3)"
        by (cases "foldNonces cr sync (latestTransitionedEpoch s1)
          [0..<numEpochKeyNoncePerEpoch sync] (latestUserStateLeaves s1) s1")
      from w1 have d1: "distinctLeaves s1 (latestUserStateLeaves s1)"
        by (simp add: wellFormed_def)
      from foldNonces_wf [OF fo d1] have e3: "extends s1 s3" and d3: "distinctLeaves s3 l3"
        by simp_all
      from foldNonces_frame [OF fo] have fr: "latestUserStateLeaves s3 = latestUserStateLeaves s1"
        by (simp add: committedFrame_def)
      from extends_distinctLeaves [OF e3 d1] fr
      have dl: "distinctLeaves s3 (latestUserStateLeaves s3)" by simp
      from gen su fo have g: "s2 = s3" "\<exists>leaf. g = Inr (leaf, l3)"
        by (auto simp: genNewUserStateAfterTransition_def)
      with assms(1) True sa None gen obtain leaf where
        "s' = s3\<lparr>newGSTLeaf := leaf, newUSTLeaves := l3\<rparr>"
        by (auto simp: epochTransition_def)
      with dl d3 show ?thesis
        by (simp add: wellFormed_def distinctLeaves_def leavesOf_def)
    qed
  qed
qed

lemma fromJSON_wellFormed:
  assumes "fromJSON c ident data = Inr s"
    and "distinct (map fst (j_latestUserStateLeaves data))"
  shows "wellFormed s"
proof -
  let ?leaves = "parseLeaves c (j_latestUserStateLeaves data)"
  have ids: "map attesterId ?leaves = js_keys (j_latestUserStateLeaves data)"
    by (simp add: parseLeaves_def comp_def)
  from assms(1) have s: "latestUserStateLeaves s = [0..<length ?leaves]"
    "objects s = storeOf ?leaves" "nextRef s = length ?leaves" "newUSTLeaves s = []"
    by (auto simp: fromJSON_def UserState_new_def Let_def)
  have "leavesOf s (latestUserStateLeaves s) = ?leaves"
    by (simp add: leavesOf_def s storeOf_map)
  with ids distinct_js_keys [OF assms(2)] s show ?thesis
    by (simp add: wellFormed_def distinctLeaves_def leavesOf_def)
qed

lemma toJSON_distinct_keys:
  "distinct (map fst (j_latestUserStateLeaves (toJSON cr sync c s)))"
proof -
  have "distinct (map fst acc) \<Longrightarrow> distinct (map fst (leavesToString c ls acc))" for ls acc
    by (induction ls arbitrary: acc) (simp_all add: distinct_update)
  from this [of "[]"] show ?thesis by (simp add: toJSON_def)
qed

end
